theory Spec2Isabelle
  imports Main
begin

section \<open>Data model\<close>

text \<open>
  The notebook represents a Pascal simplex as a Python list with one entry per layer.
  An entry is an \<open>int\<close> (dimension 1) or a list nested \<open>dimension - 1\<close> deep whose
  innermost elements are \<open>int\<close>s. Python's integers are unbounded, hence \<open>int\<close>.
\<close>

datatype node = Scalar int | Nested "node list"

text \<open>
  The exceptions: \<open>ValueError\<close> is raised by \<open>createPascalSimplex\<close> itself, \<open>IndexError\<close>
  and \<open>ZeroDivisionError\<close> by Python's indexing and division, \<open>RecursionError\<close> by a call
  that would nest deeper than the interpreter's recursion limit allows. \<open>InexactDivision\<close>
  is not Python's: only the checking division \<open>exactdiv\<close> below raises it.
\<close>

datatype exn = ValueError | IndexError | ZeroDivisionError | RecursionError | InexactDivision

text \<open>
  The outcome of a call: \<open>None\<close> when the call does not return, \<open>Some (Inl e)\<close> when it
  raises \<open>e\<close>, \<open>Some (Inr v)\<close> when it returns \<open>v\<close>.
\<close>

type_synonym 'a outcome = "(exn + 'a) option"

definition ret :: "'a \<Rightarrow> 'a outcome" where
  "ret v = Some (Inr v)"

definition raise :: "exn \<Rightarrow> 'a outcome" where
  "raise e = Some (Inl e)"

definition andthen :: "'a outcome \<Rightarrow> ('a \<Rightarrow> 'b outcome) \<Rightarrow> 'b outcome" where
  "andthen r f = (case r of None \<Rightarrow> None | Some (Inl e) \<Rightarrow> Some (Inl e) | Some (Inr v) \<Rightarrow> f v)"

text \<open>
  A Python \<open>for\<close> loop over a finite sequence: the body runs on each element in turn,
  threading the variables it updates; an exception or a body that hangs ends the loop.
\<close>

primrec for_loop :: "'a list \<Rightarrow> ('a \<Rightarrow> 's \<Rightarrow> 's outcome) \<Rightarrow> 's \<Rightarrow> 's outcome" where
  "for_loop [] body s = ret s"
| "for_loop (x # xs) body s = andthen (body x s) (for_loop xs body)"

text \<open>\<open>range(a, b)\<close> on Python integers.\<close>

definition py_range :: "int \<Rightarrow> int \<Rightarrow> int list" where
  "py_range a b = [a..b - 1]"

text \<open>
  The position an index denotes in a Python list of the given length, if any: indices
  \<open>-len, \<dots>, -1\<close> count from the end.
\<close>

definition py_index :: "nat \<Rightarrow> int \<Rightarrow> nat option" where
  "py_index len i =
     (if - int len \<le> i \<and> i < 0 then Some (nat (int len + i))
      else if 0 \<le> i \<and> i < int len then Some (nat i)
      else None)"

text \<open>\<open>xs[i]\<close> and \<open>xs[i] = v\<close>.\<close>

definition py_get :: "'a list \<Rightarrow> int \<Rightarrow> 'a outcome" where
  "py_get xs i =
     (case py_index (length xs) i of None \<Rightarrow> raise IndexError | Some j \<Rightarrow> ret (xs ! j))"

definition py_set :: "'a list \<Rightarrow> int \<Rightarrow> 'a \<Rightarrow> 'a list outcome" where
  "py_set xs i v =
     (case py_index (length xs) i of None \<Rightarrow> raise IndexError | Some j \<Rightarrow> ret (xs[j := v]))"

text \<open>\<open>a // b\<close> on Python integers: floor division, raising on a zero divisor.\<close>

definition floordiv :: "int \<Rightarrow> int \<Rightarrow> int outcome" where
  "floordiv a b = (if b = 0 then raise ZeroDivisionError else ret (a div b))"

text \<open>
  A division that additionally refuses a nonzero remainder. It is not in the source; it is
  an instrument with which the exactness of the source's divisions is exhibited.
\<close>

definition exactdiv :: "int \<Rightarrow> int \<Rightarrow> int outcome" where
  "exactdiv a b =
     (if b = 0 then raise ZeroDivisionError
      else if a mod b \<noteq> 0 then raise InexactDivision
      else ret (a div b))"

section \<open>createPascalSimplex\<close>

subsection \<open>The factorial table\<close>

text \<open>
  \<^verbatim>\<open>fact = [1] * (layers)\<close>, then \<^verbatim>\<open>for i in range(1, layers): fact[i] = fact[i-1] * i\<close>,
  with the read and the write as Python does them.
\<close>

definition fact_table :: "nat \<Rightarrow> int list outcome" where
  "fact_table layers =
     for_loop [1..<layers] (\<lambda>i tab.
       andthen (py_get tab (int i - 1)) (\<lambda>prev. py_set tab (int i) (prev * int i)))
       (replicate layers 1)"

subsection \<open>generate\_layer: the work-list loop over shared sublists\<close>

text \<open>
  \<open>generate_layer\<close> keeps a stack of tuples \<open>(current_sublist, depth, remaining, fact_prod)\<close>
  whose first component is a reference to a list that is also reachable from \<open>layer\<close>;
  appending through that reference changes the layer. The model therefore has a store:
  address \<open>a\<close> holds the list object \<open>heap ! a\<close>, an element of a list object is an \<open>int\<close>
  or a reference to another list object, and \<open>new_sublist = []\<close> allocates the next address.
\<close>

datatype cell = Val int | Ref nat

type_synonym heap = "cell list list"

type_synonym item = "nat \<times> nat \<times> nat \<times> int"

record gl_state =
  heap :: heap
  stack :: "item list"

definition append_to :: "nat \<Rightarrow> cell \<Rightarrow> heap \<Rightarrow> heap" where
  "append_to a c h = h[a := h ! a @ [c]]"

text \<open>
  One pass through the body of \<^verbatim>\<open>while stack:\<close>. The division is a parameter: the source
  is the instance \<open>floordiv\<close>, and running the same body with another division shows on
  which arguments the division is called. \<open>tab\<close> is the factorial table, read with Python's
  indexing.
\<close>

definition gl_body ::
  "(int \<Rightarrow> int \<Rightarrow> int outcome) \<Rightarrow> int list \<Rightarrow> nat \<Rightarrow> int \<Rightarrow> gl_state \<Rightarrow> gl_state outcome" where
  "gl_body dv tab x dim st =
     (case last (stack st) of (current_sublist, depth, remaining, fact_prod) \<Rightarrow>
        let st = st\<lparr>stack := butlast (stack st)\<rparr> in
        if int depth = dim - 1 then
          andthen (py_get tab (int x)) (\<lambda>fx.
          andthen (py_get tab (int remaining)) (\<lambda>fr.
          andthen (dv fx (fact_prod * fr)) (\<lambda>coeff.
          ret (st\<lparr>heap := append_to current_sublist (Val coeff) (heap st)\<rparr>))))
        else if int depth + 1 = dim - 1 then
          for_loop (rev [0..<remaining + 1]) (\<lambda>k st.
            let k_last = remaining - k in
            andthen (py_get tab (int k)) (\<lambda>fk.
            andthen (py_get tab (int k_last)) (\<lambda>fl.
            let denominator = fact_prod * fk * fl in
            andthen (py_get tab (int x)) (\<lambda>fx.
            andthen (dv fx denominator) (\<lambda>coeff.
            ret (st\<lparr>heap := append_to current_sublist (Val coeff) (heap st)\<rparr>)))))) st
        else
          for_loop (rev [0..<remaining + 1]) (\<lambda>k st.
            let new_remaining = remaining - k in
            andthen (py_get tab (int k)) (\<lambda>fk.
            let new_fact_prod = fact_prod * fk;
                new_sublist = length (heap st) in
            ret \<lparr>heap = append_to current_sublist (Ref new_sublist) (heap st @ [[]]),
                 stack = stack st @ [(new_sublist, depth + 1, new_remaining, new_fact_prod)]\<rparr>)) st)"

text \<open>\<^verbatim>\<open>while stack:\<close> The loop need not end for every state, hence a partial function.\<close>

partial_function (option) gl_loop ::
  "(int \<Rightarrow> int \<Rightarrow> int outcome) \<Rightarrow> int list \<Rightarrow> nat \<Rightarrow> int \<Rightarrow> gl_state \<Rightarrow> gl_state outcome" where
  "gl_loop dv tab x dim st =
     (if stack st = [] then Some (Inr st)
      else case gl_body dv tab x dim st of
             None \<Rightarrow> None
           | Some (Inl e) \<Rightarrow> Some (Inl e)
           | Some (Inr st') \<Rightarrow> gl_loop dv tab x dim st')"

declare gl_loop.simps [code]

text \<open>
  The Python value of the list object at an address: its elements in order, a reference
  replaced by the value of the list it points to. Sublists are allocated after the list
  that refers to them, so a reference always points to a higher address; the read-back
  follows references of that kind only, which makes it a total function.
\<close>

function reify :: "heap \<Rightarrow> nat \<Rightarrow> node" where
  "reify h a =
     Nested (map (\<lambda>c. case c of
                         Val v \<Rightarrow> Scalar v
                       | Ref b \<Rightarrow> if a < b \<and> b < length h then reify h b else Nested [])
                 (h ! a))"
  by pat_completeness auto
termination
  by (relation "measure (\<lambda>(h, a). length h - a)") auto

declare reify.simps [simp del]

definition generate_layer ::
  "(int \<Rightarrow> int \<Rightarrow> int outcome) \<Rightarrow> int list \<Rightarrow> nat \<Rightarrow> int \<Rightarrow> node outcome" where
  "generate_layer dv tab x dim =
     andthen (gl_loop dv tab x dim \<lparr>heap = [[]], stack = [(0, 0, x, 1)]\<rparr>)
       (\<lambda>st. ret (reify (heap st) 0))"

subsection \<open>The builder\<close>

text \<open>
  \<open>[1] * layers\<close> and \<open>range(layers)\<close> are empty for a negative \<open>layers\<close>, which \<open>nat\<close>
  renders. The builder is stated for any division; \<open>createPascalSimplex\<close> is the source,
  with \<open>//\<close>.
\<close>

definition createPascalSimplex_with ::
  "(int \<Rightarrow> int \<Rightarrow> int outcome) \<Rightarrow> int \<Rightarrow> int \<Rightarrow> node list outcome" where
  "createPascalSimplex_with dv layers dimension =
     (if dimension < 1 then raise ValueError
      else if layers = 0 then ret []
      else if dimension = 1 then ret (replicate (nat layers) (Scalar 1))
      else
        andthen (fact_table (nat layers)) (\<lambda>tab.
        for_loop [0..<nat layers] (\<lambda>x simplex.
          andthen (generate_layer dv tab x dimension) (\<lambda>layer. ret (simplex @ [layer]))) []))"

definition createPascalSimplex :: "int \<Rightarrow> int \<Rightarrow> node list outcome" where
  "createPascalSimplex layers dimension = createPascalSimplex_with floordiv layers dimension"

section \<open>calculate\_sum\_nested\_list\<close>

text \<open>
  The function calls itself once per level of nesting, and Python raises \<open>RecursionError\<close>
  when a call would exceed its recursion limit (\<open>sys.getrecursionlimit()\<close>, 1000 unless
  changed, counted over all frames of the interpreter's stack). How many frames are still
  free where the function is called depends on the caller, so it is a parameter: \<open>limit\<close>
  is the number of further frames that can be entered at the call. The call itself takes
  one of them.

  \<open>sum_from\<close> is the loop over the elements inside one frame: \<open>frames\<close> is what is left
  below that frame, \<open>total_sum\<close> the running total.
\<close>

fun sum_from :: "nat \<Rightarrow> int \<Rightarrow> node list \<Rightarrow> int outcome" where
  "sum_from frames total_sum [] = ret total_sum"
| "sum_from frames total_sum (Nested l # rest) =
     (case frames of
        0 \<Rightarrow> raise RecursionError
      | Suc below \<Rightarrow>
          andthen (sum_from below 0 l) (\<lambda>s. sum_from frames (total_sum + s) rest))"
| "sum_from frames total_sum (Scalar v # rest) = sum_from frames (total_sum + v) rest"

definition calculate_sum_nested_list :: "nat \<Rightarrow> node list \<Rightarrow> int outcome" where
  "calculate_sum_nested_list limit nested_list =
     (case limit of
        0 \<Rightarrow> raise RecursionError
      | Suc frames \<Rightarrow> sum_from frames 0 nested_list)"

section \<open>calculateHypersumsInPascalSimplex\<close>

text \<open>
  The \<^verbatim>\<open>while True:\<close> walk of one layer, with the loop variables \<open>plain_sum\<close> and \<open>i\<close> as
  arguments. The result records, beside the sum, through which of its three \<open>break\<close>s the
  loop was left. \<open>idx\<close> is known to be non-negative where \<open>simplex[idx]\<close> is read, so the
  read raises exactly when \<open>idx\<close> is not below the length; that \<open>IndexError\<close> is caught.
  The call of \<open>calculate_sum_nested_list\<close> is outside the \<open>try\<close>: what it raises leaves the
  function. \<open>limit\<close> is the number of frames that are free at that call.
\<close>

datatype exit = NegativeIndex | IndexErrorCaught | BareScalar

text \<open>The branch \<^verbatim>\<open>if isinstance(value, list):\<close> of one pass: the new \<open>plain_sum\<close>.\<close>

definition add_sub_value :: "nat \<Rightarrow> node list \<Rightarrow> nat \<Rightarrow> int \<Rightarrow> int outcome" where
  "add_sub_value limit value i plain_sum =
     (if i < length value then
        (case value ! i of
           Scalar sub_value \<Rightarrow> ret (plain_sum + sub_value)
         | Nested sub_value \<Rightarrow>
             andthen (calculate_sum_nested_list limit sub_value) (\<lambda>s. ret (plain_sum + s)))
      else ret plain_sum)"

partial_function (option) walk ::
  "nat \<Rightarrow> node list \<Rightarrow> int \<Rightarrow> nat \<Rightarrow> int \<Rightarrow> nat \<Rightarrow> (int \<times> exit) outcome" where
  "walk limit simplex m layer plain_sum i =
     (let idx = int layer - int i * m in
      if idx < 0 then Some (Inr (plain_sum, NegativeIndex))
      else if \<not> nat idx < length simplex then Some (Inr (plain_sum, IndexErrorCaught))
      else case simplex ! nat idx of
             Nested value \<Rightarrow>
               (case add_sub_value limit value i plain_sum of
                  None \<Rightarrow> None
                | Some (Inl e) \<Rightarrow> Some (Inl e)
                | Some (Inr plain_sum) \<Rightarrow> walk limit simplex m layer plain_sum (i + 1))
           | Scalar v \<Rightarrow> Some (Inr (1, BareScalar)))"

declare walk.simps [code]

definition calculateHypersumsInPascalSimplex ::
  "nat \<Rightarrow> node list \<Rightarrow> int \<Rightarrow> int list outcome" where
  "calculateHypersumsInPascalSimplex limit simplex m =
     for_loop [0..<length simplex] (\<lambda>layer res.
       andthen (walk limit simplex m layer 0 0) (\<lambda>(plain_sum, how).
       ret (res @ [plain_sum]))) []"

section \<open>calculateSequence\<close>

definition calculateSequence :: "int \<Rightarrow> int \<Rightarrow> int \<Rightarrow> int list outcome" where
  "calculateSequence dimension m k =
     andthen (for_loop (py_range 0 (min k (m + 1))) (\<lambda>i res. ret (res @ [1])) [])
       (for_loop (py_range (m + 1) k) (\<lambda>i res.
          andthen (py_get res (i - 1)) (\<lambda>a.
          andthen (py_get res (i - (m + 1))) (\<lambda>b.
          ret (res @ [a + (dimension - 1) * b])))))"

section \<open>validateFormula\<close>

text \<open>
  The printing of a mismatch is output only and is left out. \<open>limit\<close> is, as above, the
  number of frames free where \<open>calculate_sum_nested_list\<close> is called.
\<close>

definition validateFormula :: "nat \<Rightarrow> int \<Rightarrow> int \<Rightarrow> int \<Rightarrow> bool outcome" where
  "validateFormula limit maxD maxM maxK =
     for_loop (py_range 1 maxD) (\<lambda>d.
       for_loop (py_range 1 maxM) (\<lambda>m.
         for_loop (py_range 1 maxK) (\<lambda>k all_okay.
           andthen (createPascalSimplex k d) (\<lambda>simplex.
           andthen (calculateHypersumsInPascalSimplex limit simplex m) (\<lambda>hypersums.
           andthen (calculateSequence d m k) (\<lambda>sequence.
           ret (if hypersums \<noteq> sequence then False else all_okay))))))) True"

section \<open>The layers as a depth-first recursion\<close>

text \<open>
  What \<open>generate_layer\<close> is shown to build. \<open>layer_rec x j remaining fact_prod\<close> is the
  content of a sublist that sits \<open>j + 1\<close> levels above the scalars: one entry per part
  \<open>k = remaining, ..., 0\<close>, in that order.
\<close>

fun layer_rec :: "nat \<Rightarrow> nat \<Rightarrow> nat \<Rightarrow> int \<Rightarrow> node list" where
  "layer_rec x 0 remaining fact_prod =
     map (\<lambda>k. Scalar (fact x div (fact_prod * fact k * fact (remaining - k))))
         (rev [0..<Suc remaining])"
| "layer_rec x (Suc j) remaining fact_prod =
     map (\<lambda>k. Nested (layer_rec x j (remaining - k) (fact_prod * fact k)))
         (rev [0..<Suc remaining])"

definition layer_of :: "nat \<Rightarrow> nat \<Rightarrow> node" where
  "layer_of d x = (if d = 1 then Scalar 1 else Nested (layer_rec x (d - 2) x 1))"

text \<open>
  The value an address will have once the stack is empty: a sublist still waiting on the
  stack stands for the recursion's result, any other is read as it is.
\<close>

function expected :: "nat \<Rightarrow> nat \<Rightarrow> item list \<Rightarrow> heap \<Rightarrow> nat \<Rightarrow> node" where
  "expected x D stk h a =
     (case map_of stk a of
        Some (depth, remaining, fact_prod) \<Rightarrow> Nested (layer_rec x (D - 1 - depth) remaining fact_prod)
      | None \<Rightarrow>
          Nested (map (\<lambda>c. case c of
                              Val v \<Rightarrow> Scalar v
                            | Ref b \<Rightarrow> if a < b \<and> b < length h then expected x D stk h b
                                       else Nested [])
                      (h ! a)))"
  by pat_completeness auto
termination
  by (relation "measure (\<lambda>(x, D, stk, h, a). length h - a)") auto

declare expected.simps [simp del]

text \<open>The invariant of the work-list loop, and the measure that bounds its passes.\<close>

definition item_ok :: "nat \<Rightarrow> nat \<Rightarrow> heap \<Rightarrow> item \<Rightarrow> bool" where
  "item_ok x D h it =
     (case it of (a, depth, remaining, fact_prod) \<Rightarrow>
        a < length h \<and> h ! a = [] \<and> depth < D \<and> remaining \<le> x \<and> 0 < fact_prod \<and>
        fact_prod * fact remaining dvd fact x)"

definition gl_inv :: "nat \<Rightarrow> nat \<Rightarrow> gl_state \<Rightarrow> bool" where
  "gl_inv x D st =
     (distinct (map fst (stack st)) \<and>
      (\<forall>it \<in> set (stack st). item_ok x D (heap st) it) \<and>
      (\<forall>c < length (heap st). \<forall>b. Ref b \<in> set (heap st ! c) \<longrightarrow> b < length (heap st)))"

definition weight :: "nat \<Rightarrow> item \<Rightarrow> nat" where
  "weight D it = (case it of (a, depth, remaining, fact_prod) \<Rightarrow> (remaining + 2) ^ (D - depth))"

definition gl_measure :: "nat \<Rightarrow> gl_state \<Rightarrow> nat" where
  "gl_measure D st = sum_list (map (weight D) (stack st))"

section \<open>Notions the properties are stated with\<close>

text \<open>
  The sum of the scalars of a nested list, as a number: what \<open>calculate_sum_nested_list\<close>
  returns when it returns. The sum of the scalars of one layer is the flatten-and-sum of
  a nested layer, the scalar itself for a layer of a one-dimensional simplex.
\<close>

fun flat_sum :: "node list \<Rightarrow> int" where
  "flat_sum [] = 0"
| "flat_sum (Nested l # rest) = flat_sum l + flat_sum rest"
| "flat_sum (Scalar v # rest) = v + flat_sum rest"

fun layer_sum :: "node \<Rightarrow> int" where
  "layer_sum (Scalar v) = v"
| "layer_sum (Nested l) = flat_sum l"

text \<open>How deep the lists of an entry are nested: 0 for a scalar, 1 for a list of scalars.\<close>

fun nesting :: "node \<Rightarrow> nat" where
  "nesting (Scalar v) = 0"
| "nesting (Nested l) = Suc (fold max (map nesting l) 0)"

text \<open>The entry reached from a layer by a sequence of list indices, outermost first.\<close>

fun node_at :: "node \<Rightarrow> nat list \<Rightarrow> node option" where
  "node_at n [] = Some n"
| "node_at (Scalar v) (i # p) = None"
| "node_at (Nested l) (i # p) = (if i < length l then node_at (l ! i) p else None)"

text \<open>
  Where the multi-index \<open>(k\<^sub>1, \<dots>, k\<^sub>d\<^sub>-\<^sub>1)\<close> sits in its layer. Each level lists its
  parts in descending order, so the part \<open>k\<close> is found at index \<open>remaining - k\<close>.
\<close>

fun path_of :: "nat \<Rightarrow> nat list \<Rightarrow> nat list" where
  "path_of remaining [] = []"
| "path_of remaining (k # ks) = (remaining - k) # path_of (remaining - k) ks"

text \<open>
  The hyperplane sum of layer \<open>L\<close> in closed form, with \<open>q = dimension - 1\<close>: step \<open>i\<close> of
  the walk contributes \<open>(L - i m choose i) q\<^sup>i\<close>.
\<close>

definition hyper :: "int \<Rightarrow> nat \<Rightarrow> nat \<Rightarrow> int" where
  "hyper q m L = (\<Sum>i = 0..L. int ((L - i * m) choose i) * q ^ i)"

section \<open>Outcomes, loops and the factorial table\<close>

lemma andthen_ret [simp]: "andthen (ret v) f = f v"
  by (simp add: andthen_def ret_def)

lemma andthen_raise [simp]: "andthen (raise e) f = raise e"
  by (simp add: andthen_def raise_def)

lemma andthen_None [simp]: "andthen None f = None"
  by (simp add: andthen_def)

lemma ret_neq [simp]: "ret v \<noteq> raise e" "raise e \<noteq> ret v" "ret v \<noteq> None" "raise e \<noteq> None"
  "(ret v = ret w) = (v = w)"
  by (simp_all add: ret_def raise_def)

text \<open>
  A loop whose body always returns is a fold.
\<close>

lemma for_loop_pure:
  "(\<And>x s. x \<in> set xs \<Longrightarrow> body x s = ret (g x s)) \<Longrightarrow>
   for_loop xs body s = ret (foldl (\<lambda>s x. g x s) s xs)"
  by (induction xs arbitrary: s) simp_all

lemma for_loop_snoc:
  "for_loop (xs @ [x]) body s = andthen (for_loop xs body s) (body x)"
proof (induction xs arbitrary: s)
  case Nil
  show ?case by (cases "body x s") (auto simp: andthen_def ret_def split: sum.splits)
next
  case (Cons y ys)
  show ?case using Cons.IH
    by (cases "body y s") (auto simp: andthen_def split: sum.splits)
qed

lemma py_get_nat: "i < length xs \<Longrightarrow> py_get xs (int i) = ret (xs ! i)"
  by (simp add: py_get_def py_index_def)

lemma py_set_nat: "i < length xs \<Longrightarrow> py_set xs (int i) v = ret (xs[i := v])"
  by (simp add: py_set_def py_index_def)

text \<open>
  The table loop raises nothing and leaves \<open>i!\<close> at index \<open>i\<close>.
\<close>

lemma fact_table_prefix:
  "j \<le> n \<Longrightarrow>
   \<exists>t. for_loop [1..<j] (\<lambda>i tab.
          andthen (py_get tab (int i - 1)) (\<lambda>prev. py_set tab (int i) (prev * int i)))
          (replicate n 1) = ret t \<and>
       length t = n \<and> (\<forall>i<j. t ! i = fact i)"
proof (induction j)
  case 0
  then show ?case by simp
next
  case (Suc j)
  let ?body = "\<lambda>i tab. andthen (py_get tab (int i - 1)) (\<lambda>prev. py_set tab (int i) (prev * int i))"
  show ?case
  proof (cases "j = 0")
    case True
    with Suc.prems show ?thesis by simp
  next
    case False
    then have up: "[1..<Suc j] = [1..<j] @ [j]" by simp
    from Suc obtain t where t: "for_loop [1..<j] ?body (replicate n 1) = ret t" "length t = n"
      "\<And>i. i < j \<Longrightarrow> t ! i = fact i"
      by auto
    have "int j - 1 = int (j - 1)" "j - 1 < length t" "j < length t"
      using False Suc.prems t(2) by simp_all
    then have "?body j t = ret (t[j := t ! (j - 1) * int j])"
      by (simp only: py_get_nat py_set_nat andthen_ret)
    moreover have "t ! (j - 1) * int j = (fact j :: int)"
      using False t(3) [of "j - 1"] by (cases j) (simp_all add: algebra_simps)
    ultimately have "for_loop [1..<Suc j] ?body (replicate n 1) = ret (t[j := fact j])"
      by (simp only: up for_loop_snoc t(1) andthen_ret)
    moreover have "\<forall>i<Suc j. t[j := fact j] ! i = fact i"
      using t(2,3) Suc.prems by (auto simp: nth_list_update less_Suc_eq)
    ultimately show ?thesis using t(2) by simp
  qed
qed

lemma fact_table_eq:
  "\<exists>t. fact_table n = ret t \<and> length t = n \<and> (\<forall>i<n. t ! i = fact i)"
  using fact_table_prefix [of n n] by (simp add: fact_table_def)

lemma table_get:
  "length t = n \<Longrightarrow> \<forall>i<n. t ! i = fact i \<Longrightarrow> i < n \<Longrightarrow> py_get t (int i) = ret (fact i)"
  by (simp add: py_get_nat)

section \<open>The loop body in closed form\<close>

text \<open>
  The two inner \<open>for\<close> loops of the body as one update of the store: the first appends
  scalars to the current sublist, the second allocates one empty sublist per part, appends
  the references to the current sublist and pushes one stack entry each.
\<close>

lemma fold_append_vals:
  "a < length (heap st) \<Longrightarrow>
   foldl (\<lambda>st k. st\<lparr>heap := append_to a (Val (c k)) (heap st)\<rparr>) st ks
   = st\<lparr>heap := (heap st)[a := heap st ! a @ map (\<lambda>k. Val (c k)) ks]\<rparr>"
  by (induction ks arbitrary: st) (simp_all add: append_to_def)

lemma fold_push:
  fixes st :: gl_state
  assumes a: "a < length (heap st)"
  shows "foldl (\<lambda>st k. \<lparr>heap = append_to a (Ref (length (heap st))) (heap st @ [[]]),
                         stack = stack st @ [(length (heap st), g k)]\<rparr>) st ks
   = \<lparr>heap = (heap st @ replicate (length ks) [])
                [a := heap st ! a @ map Ref [length (heap st)..<length (heap st) + length ks]],
      stack = stack st @ map (\<lambda>i. (length (heap st) + i, g (ks ! i))) [0..<length ks]\<rparr>"
proof -
  define f where "f = (\<lambda>(st::gl_state) k.
      \<lparr>heap = append_to a (Ref (length (heap st))) (heap st @ [[]]),
       stack = stack st @ [(length (heap st), g k)]\<rparr>)"
  define h where "h = heap st"
  have "foldl f st ks
      = \<lparr>heap = (h @ replicate (length ks) [])[a := h ! a @ map Ref [length h..<length h + length ks]],
         stack = stack st @ map (\<lambda>i. (length h + i, g (ks ! i))) [0..<length ks]\<rparr>"
  proof (induction ks rule: rev_induct)
    case Nil
    show ?case by (simp add: h_def)
  next
    case (snoc k ks)
    have r: "replicate (length ks) ([]::cell list) @ [[]] = replicate (Suc (length ks)) []"
      by (simp add: replicate_append_same)
    have m: "map (\<lambda>i. (length h + i, g ((ks @ [k]) ! i))) [0..<length ks]
           = map (\<lambda>i. (length h + i, g (ks ! i))) [0..<length ks]"
      by (simp add: nth_append)
    have "foldl f st (ks @ [k]) = f (foldl f st ks) k" by simp
    also have "\<dots> = f \<lparr>heap = (h @ replicate (length ks) [])[a := h ! a @ map Ref [length h..<length h + length ks]],
         stack = stack st @ map (\<lambda>i. (length h + i, g (ks ! i))) [0..<length ks]\<rparr> k"
      by (simp only: snoc.IH)
    also have "\<dots> = \<lparr>heap = (h @ replicate (length (ks @ [k])) [])[a := h ! a @ map Ref [length h..<length h + length (ks @ [k])]],
         stack = stack st @ map (\<lambda>i. (length h + i, g ((ks @ [k]) ! i))) [0..<length (ks @ [k])]\<rparr>"
      using a unfolding f_def h_def [symmetric]
      by (simp add: append_to_def nth_append m r [symmetric] list_update_append1 del: replicate_Suc)
    finally show ?case .
  qed
  then show ?thesis by (simp add: f_def h_def)
qed

lemma fact_binomial_int:
  "k \<le> n \<Longrightarrow> (fact k :: int) * fact (n - k) * int (n choose k) = fact n"
proof -
  assume "k \<le> n"
  then have "int (fact k * fact (n - k) * (n choose k)) = int (fact n)"
    by (simp only: binomial_fact_lemma)
  then show ?thesis by simp
qed

lemma denominator_dvd:
  assumes "k \<le> r" "fp * fact r dvd (fact x :: int)"
  shows "fp * fact k * fact (r - k) dvd (fact x :: int)"
proof -
  have "fp * fact k * fact (r - k) * int (r choose k) = fp * fact r"
    using fact_binomial_int [OF assms(1)] by (simp add: mult.assoc)
  then have "fp * fact k * fact (r - k) dvd fp * fact r"
    by (metis dvd_triv_left)
  then show ?thesis using assms(2) by (rule dvd_trans)
qed

lemma rev_upt_nth: "i \<le> r \<Longrightarrow> rev [0..<Suc r] ! i = r - i"
  by (simp add: rev_nth del: upt_Suc)

text \<open>
  One pass of the loop body, for a stack whose top entry is \<open>(a, dep, r, fp)\<close>. On the
  penultimate level the pass appends the coefficients; each division is exact because
  \<open>fp \<cdot> r!\<close> divides \<open>x!\<close>. On a level above, it pushes the sublists of the next level.
\<close>

lemma gl_body_leaves:
  assumes tab: "\<And>k. k \<le> x \<Longrightarrow> py_get tab (int k) = ret (fact k)"
    and dv: "\<And>b. b \<noteq> 0 \<Longrightarrow> b dvd fact x \<Longrightarrow> dv (fact x) b = ret (fact x div b)"
    and stk: "stack st = s @ [(a, dep, r, fp)]"
    and lvl: "int dep + 1 = dim - 1"
    and a: "a < length (heap st)" and r: "r \<le> x" and fp: "0 < fp"
    and dvd: "fp * fact r dvd fact x"
  shows "gl_body dv tab x dim st =
         ret \<lparr>heap = (heap st)[a := heap st ! a @
                   map (\<lambda>k. Val (fact x div (fp * fact k * fact (r - k)))) (rev [0..<Suc r])],
              stack = s\<rparr>"
proof -
  let ?c = "\<lambda>k. fact x div (fp * fact k * fact (r - k))"
  let ?body = "\<lambda>k st.
            let k_last = r - k in
            andthen (py_get tab (int k)) (\<lambda>fk.
            andthen (py_get tab (int k_last)) (\<lambda>fl.
            let denominator = fp * fk * fl in
            andthen (py_get tab (int x)) (\<lambda>fx.
            andthen (dv fx denominator) (\<lambda>coeff.
            ret (st\<lparr>heap := append_to a (Val coeff) (heap st)\<rparr>)))))"
  have body: "?body k t = ret (t\<lparr>heap := append_to a (Val (?c k)) (heap t)\<rparr>)"
    if "k \<in> set (rev [0..<r + 1])" for k and t :: gl_state
  proof -
    from that have k: "k \<le> r" by auto
    have nz: "fp * fact k * fact (r - k) \<noteq> 0" using fp by simp
    have "dv (fact x) (fp * fact k * fact (r - k)) = ret (?c k)"
      using dv [OF nz denominator_dvd [OF k dvd]] .
    moreover have "py_get tab (int k) = ret (fact k)" "py_get tab (int (r - k)) = ret (fact (r - k))"
      "py_get tab (int x) = ret (fact x)"
      using k r by (simp_all only: tab)
    ultimately show ?thesis by (simp only: Let_def andthen_ret)
  qed
  have "gl_body dv tab x dim st = for_loop (rev [0..<r + 1]) ?body (st\<lparr>stack := s\<rparr>)"
    using lvl by (simp add: gl_body_def stk)
  also have "\<dots> = ret (foldl (\<lambda>t k. t\<lparr>heap := append_to a (Val (?c k)) (heap t)\<rparr>)
                     (st\<lparr>stack := s\<rparr>) (rev [0..<r + 1]))"
    by (rule for_loop_pure) (rule body)
  also have "\<dots> = ret \<lparr>heap = (heap st)[a := heap st ! a @ map (\<lambda>k. Val (?c k)) (rev [0..<Suc r])],
                       stack = s\<rparr>"
    using a by (subst fold_append_vals) simp_all
  finally show ?thesis .
qed

lemma gl_body_sublists:
  assumes tab: "\<And>k. k \<le> x \<Longrightarrow> py_get tab (int k) = ret (fact k)"
    and stk: "stack st = s @ [(a, dep, r, fp)]"
    and lvl: "int dep + 1 \<noteq> dim - 1" "int dep \<noteq> dim - 1"
    and a: "a < length (heap st)" and r: "r \<le> x"
  shows "gl_body dv tab x dim st =
         ret \<lparr>heap = (heap st @ replicate (Suc r) [])
                       [a := heap st ! a @ map Ref [length (heap st)..<length (heap st) + Suc r]],
              stack = s @ map (\<lambda>i. (length (heap st) + i, dep + 1, i, fp * fact (r - i)))
                              [0..<Suc r]\<rparr>"
proof -
  let ?g = "\<lambda>k. (dep + 1, r - k, fp * fact k)"
  let ?body = "\<lambda>k (st::gl_state).
            let new_remaining = r - k in
            andthen (py_get tab (int k)) (\<lambda>fk.
            let new_fact_prod = fp * fk;
                new_sublist = length (heap st) in
            ret \<lparr>heap = append_to a (Ref new_sublist) (heap st @ [[]]),
                 stack = stack st @ [(new_sublist, dep + 1, new_remaining, new_fact_prod)]\<rparr>)"
  have body: "?body k t = ret \<lparr>heap = append_to a (Ref (length (heap t))) (heap t @ [[]]),
                                stack = stack t @ [(length (heap t), ?g k)]\<rparr>"
    if "k \<in> set (rev [0..<r + 1])" for k and t :: gl_state
  proof -
    from that r have "k \<le> x" by auto
    then show ?thesis by (simp add: tab Let_def)
  qed
  have "gl_body dv tab x dim st = for_loop (rev [0..<r + 1]) ?body (st\<lparr>stack := s\<rparr>)"
    using lvl by (simp add: gl_body_def stk)
  also have "\<dots> = ret (foldl (\<lambda>t k. \<lparr>heap = append_to a (Ref (length (heap t))) (heap t @ [[]]),
                                stack = stack t @ [(length (heap t), ?g k)]\<rparr>)
                     (st\<lparr>stack := s\<rparr>) (rev [0..<r + 1]))"
    by (rule for_loop_pure) (rule body)
  also have "\<dots> = ret \<lparr>heap = (heap st @ replicate (Suc r) [])
                       [a := heap st ! a @ map Ref [length (heap st)..<length (heap st) + Suc r]],
              stack = s @ map (\<lambda>i. (length (heap st) + i, dep + 1, i, fp * fact (r - i)))
                              [0..<Suc r]\<rparr>"
    using a by (subst fold_push) (simp_all add: rev_upt_nth del: upt_Suc replicate_Suc)
  finally show ?thesis .
qed

section \<open>The work-list loop computes the recursion\<close>

lemma map_of_append_fresh:
  "c \<notin> fst ` set ys \<Longrightarrow> map_of (xs @ ys) c = map_of xs c"
  by (simp add: map_add_def map_of_eq_None_iff [THEN iffD2] split: option.splits)

lemma map_of_append_top:
  "a \<notin> fst ` set xs \<Longrightarrow> map_of (xs @ [(a, v)]) a = Some v"
  by (simp add: map_add_def map_of_eq_None_iff [THEN iffD2])

text \<open>
  A pass of the loop body leaves the expected value of every existing address unchanged,
  provided it does so at the address it pops, touches no other existing list and pushes
  fresh addresses only.
\<close>

lemma expected_step:
  assumes dist: "distinct (map fst (s @ [(a, dep, r, fp)]))"
    and a: "a < length h"
    and refs: "\<And>c b. c < length h \<Longrightarrow> Ref b \<in> set (h ! c) \<Longrightarrow> b < length h"
    and len: "length h \<le> length h'"
    and same: "\<And>c. c < length h \<Longrightarrow> c \<noteq> a \<Longrightarrow> h' ! c = h ! c"
    and new: "\<And>b. b \<in> fst ` set new \<Longrightarrow> length h \<le> b"
    and at_a: "expected x D (s @ new) h' a = Nested (layer_rec x (D - 1 - dep) r fp)"
    and c: "c < length h"
  shows "expected x D (s @ new) h' c = expected x D (s @ [(a, dep, r, fp)]) h c"
  using c
proof (induction c rule: measure_induct_rule [where f = "\<lambda>c. length h - c"])
  case (less c)
  show ?case
  proof (cases "c = a")
    case True
    from dist have "a \<notin> fst ` set s" by auto
    then have "map_of (s @ [(a, dep, r, fp)]) a = Some (dep, r, fp)"
      by (rule map_of_append_top)
    then have "expected x D (s @ [(a, dep, r, fp)]) h a = Nested (layer_rec x (D - 1 - dep) r fp)"
      by (subst expected.simps) (simp del: map_of_append)
    with at_a True show ?thesis by simp
  next
    case False
    from less.prems new have "c \<notin> fst ` set new" by force
    then have m1: "map_of (s @ new) c = map_of s c" by (rule map_of_append_fresh)
    from False have m2: "map_of (s @ [(a, dep, r, fp)]) c = map_of s c"
      by (intro map_of_append_fresh) simp
    have hc: "h' ! c = h ! c" using same less.prems False by simp
    show ?thesis
    proof (cases "map_of s c")
      case (Some it)
      then show ?thesis
        by (subst expected.simps, subst (2) expected.simps) (simp add: m1 m2 del: map_of_append)
    next
      case None
      have "map (\<lambda>ce. case ce of Val v \<Rightarrow> Scalar v
                       | Ref b \<Rightarrow> if c < b \<and> b < length h' then expected x D (s @ new) h' b else Nested [])
                (h ! c)
          = map (\<lambda>ce. case ce of Val v \<Rightarrow> Scalar v
                       | Ref b \<Rightarrow> if c < b \<and> b < length h then expected x D (s @ [(a, dep, r, fp)]) h b
                                  else Nested [])
                (h ! c)"
      proof (rule map_cong [OF refl])
        fix ce assume ce: "ce \<in> set (h ! c)"
        show "(case ce of Val v \<Rightarrow> Scalar v
                       | Ref b \<Rightarrow> if c < b \<and> b < length h' then expected x D (s @ new) h' b else Nested [])
            = (case ce of Val v \<Rightarrow> Scalar v
                       | Ref b \<Rightarrow> if c < b \<and> b < length h then expected x D (s @ [(a, dep, r, fp)]) h b
                                  else Nested [])"
        proof (cases ce)
          case (Val v)
          then show ?thesis by simp
        next
          case (Ref b)
          with ce refs less.prems have b: "b < length h" by blast
          show ?thesis
          proof (cases "c < b")
            case True
            with b less.prems have "length h - b < length h - c" by arith
            from less.IH [OF this b] True b len Ref show ?thesis by simp
          next
            case False
            with Ref show ?thesis by simp
          qed
        qed
      qed
      then show ?thesis
        by (subst expected.simps, subst (2) expected.simps) (simp add: m1 m2 None hc del: map_of_append)
    qed
  qed
qed

lemma inv_top:
  assumes "gl_inv x D st" "stack st = s @ [(a, dep, r, fp)]"
  shows "a < length (heap st)" "heap st ! a = []" "dep < D" "r \<le> x" "0 < fp"
    "fp * fact r dvd fact x" "a \<notin> fst ` set s" "distinct (map fst s)"
    "\<And>it. it \<in> set s \<Longrightarrow> item_ok x D (heap st) it"
    "\<And>c b. c < length (heap st) \<Longrightarrow> Ref b \<in> set (heap st ! c) \<Longrightarrow> b < length (heap st)"
  using assms by (auto simp: gl_inv_def item_ok_def)

text \<open>
  Both kinds of pass keep the invariant, lower the measure and preserve expected values.
\<close>

lemma step_leaves:
  assumes inv: "gl_inv x D st" and stk: "stack st = s @ [(a, dep, r, fp)]" and lvl: "Suc dep = D"
    and st': "st' = \<lparr>heap = (heap st)[a := heap st ! a @
                   map (\<lambda>k. Val (fact x div (fp * fact k * fact (r - k)))) (rev [0..<Suc r])],
              stack = s\<rparr>"
  shows "gl_inv x D st'" "gl_measure D st' < gl_measure D st"
    "length (heap st) \<le> length (heap st')"
    "\<And>c. c < length (heap st) \<Longrightarrow>
         expected x D (stack st') (heap st') c = expected x D (stack st) (heap st) c"
proof -
  note top = inv_top [OF inv stk]
  let ?vals = "map (\<lambda>k. Val (fact x div (fp * fact k * fact (r - k)))) (rev [0..<Suc r])"
  have h': "heap st' = (heap st)[a := ?vals]" and s': "stack st' = s"
    by (simp_all add: st' top(2))
  show "gl_inv x D st'"
    unfolding gl_inv_def h' s'
  proof (intro conjI ballI allI impI)
    show "distinct (map fst s)" by (rule top(8))
  next
    fix it assume it: "it \<in> set s"
    obtain b d' r' fp' where [simp]: "it = (b, d', r', fp')" by (cases it) auto
    from it top(7) have "b \<noteq> a" by force
    with top(9) [OF it] show "item_ok x D ((heap st)[a := ?vals]) it"
      by (simp add: item_ok_def)
  next
    fix c b assume c: "c < length ((heap st)[a := ?vals])" and b: "Ref b \<in> set ((heap st)[a := ?vals] ! c)"
    show "b < length ((heap st)[a := ?vals])"
    proof (cases "c = a")
      case True
      with b top(1) show ?thesis by auto
    next
      case False
      with b c top(10) [of c b] show ?thesis by simp
    qed
  qed
  show "gl_measure D st' < gl_measure D st"
    by (simp add: gl_measure_def s' stk weight_def)
  show "length (heap st) \<le> length (heap st')" by (simp add: h')
  fix c assume c: "c < length (heap st)"
  have "expected x D (s @ []) (heap st') c = expected x D (s @ [(a, dep, r, fp)]) (heap st) c"
  proof (rule expected_step [OF _ top(1) _ _ _ _ _ c])
    show "distinct (map fst (s @ [(a, dep, r, fp)]))"
      using inv stk by (simp add: gl_inv_def)
    show "\<And>c b. c < length (heap st) \<Longrightarrow> Ref b \<in> set (heap st ! c) \<Longrightarrow> b < length (heap st)"
      by (rule top(10))
    show "length (heap st) \<le> length (heap st')" by (simp add: h')
    show "\<And>c. c < length (heap st) \<Longrightarrow> c \<noteq> a \<Longrightarrow> heap st' ! c = heap st ! c"
      by (simp add: h')
    show "\<And>b. b \<in> fst ` set [] \<Longrightarrow> length (heap st) \<le> b" by simp
    have "map_of s a = None" using top(7) by (simp add: map_of_eq_None_iff)
    moreover have "D - 1 - dep = 0" using lvl by simp
    ultimately show "expected x D (s @ []) (heap st') a = Nested (layer_rec x (D - 1 - dep) r fp)"
      using top(1) by (subst expected.simps) (simp add: h' comp_def del: upt_Suc)
  qed
  then show "expected x D (stack st') (heap st') c = expected x D (stack st) (heap st) c"
    by (simp add: s' stk)
qed

lemma weight_sum_less:
  "sum_list (map (\<lambda>i. (i + 2) ^ e) [0..<Suc r]) < (r + 2) ^ Suc e"
proof -
  have "sum_list (map (\<lambda>i. (i + 2) ^ e) [0..<Suc r]) \<le> sum_list (map (\<lambda>i. (r + 2) ^ e) [0..<Suc r])"
    by (rule sum_list_mono) (auto intro!: power_mono)
  also have "\<dots> = Suc r * (r + 2) ^ e" by (simp add: sum_list_triv del: upt_Suc)
  also have "\<dots> < (r + 2) * (r + 2) ^ e" by simp
  finally show ?thesis by simp
qed

lemma map_of_enum:
  "i < m \<Longrightarrow> map_of (map (\<lambda>i. (n + i, g i)) [0..<m]) (n + i) = Some (g i)"
  by (rule map_of_is_SomeI) (auto simp: distinct_map comp_def inj_on_def)

lemma step_sublists:
  assumes inv: "gl_inv x D st" and stk: "stack st = s @ [(a, dep, r, fp)]" and lvl: "Suc dep < D"
    and st': "st' = \<lparr>heap = (heap st @ replicate (Suc r) [])
                       [a := heap st ! a @ map Ref [length (heap st)..<length (heap st) + Suc r]],
              stack = s @ map (\<lambda>i. (length (heap st) + i, dep + 1, i, fp * fact (r - i)))
                              [0..<Suc r]\<rparr>"
  shows "gl_inv x D st'" "gl_measure D st' < gl_measure D st"
    "length (heap st) \<le> length (heap st')"
    "\<And>c. c < length (heap st) \<Longrightarrow>
         expected x D (stack st') (heap st') c = expected x D (stack st) (heap st) c"
proof -
  note top = inv_top [OF inv stk]
  define n where "n = length (heap st)"
  define new where "new = map (\<lambda>i. (n + i, dep + 1, i, fp * fact (r - i))) [0..<Suc r]"
  define h' where "h' = (heap st @ replicate (Suc r) [])[a := map Ref [n..<n + Suc r]]"
  have hs: "heap st' = h'" "stack st' = s @ new"
    by (simp_all add: st' top(2) h'_def new_def n_def)
  have an: "a < n" using top(1) by (simp add: n_def)
  have len: "length h' = n + Suc r" by (simp add: h'_def n_def)
  have h'a: "h' ! a = map Ref [n..<n + Suc r]"
    using an by (simp add: h'_def n_def)
  have h'old: "h' ! c = heap st ! c" if "c < n" "c \<noteq> a" for c
    using that by (simp add: h'_def n_def nth_append)
  have h'new: "h' ! c = []" if "n \<le> c" "c < n + Suc r" for c
    using that an by (simp add: h'_def n_def nth_append del: replicate_Suc)
  have fst_new: "fst ` set new = {n..<n + Suc r}"
  proof -
    have "fst ` set new = (\<lambda>i. n + i) ` {0..<Suc r}"
      by (simp add: new_def image_image del: upt_Suc)
    also have "\<dots> = {n..<n + Suc r}"
    proof (rule set_eqI)
      fix b
      show "b \<in> (\<lambda>i. n + i) ` {0..<Suc r} \<longleftrightarrow> b \<in> {n..<n + Suc r}"
      proof
        assume "b \<in> {n..<n + Suc r}"
        then have "b = n + (b - n)" "b - n \<in> {0..<Suc r}" by auto
        then show "b \<in> (\<lambda>i. n + i) ` {0..<Suc r}" by (rule image_eqI)
      qed auto
    qed
    finally show ?thesis .
  qed
  have s_lt: "b < n" if "b \<in> fst ` set s" for b
    using that top(9) by (auto simp: item_ok_def n_def)
  show "gl_inv x D st'"
    unfolding gl_inv_def hs
  proof (intro conjI ballI allI impI)
    have "distinct (map fst new)"
      by (simp add: new_def comp_def distinct_map inj_on_def del: upt_Suc)
    moreover have "fst ` set s \<inter> fst ` set new = {}"
      unfolding fst_new using s_lt by fastforce
    ultimately show "distinct (map fst (s @ new))"
      using top(8) by simp
  next
    fix it assume "it \<in> set (s @ new)"
    then consider "it \<in> set s" | "it \<in> set new" by auto
    then show "item_ok x D h' it"
    proof cases
      case 1
      obtain b d' r' fp' where [simp]: "it = (b, d', r', fp')" by (cases it) auto
      from 1 top(7) have ba: "b \<noteq> a" by force
      from 1 have bn: "b < n" by (intro s_lt) force
      with top(9) [OF 1] ba show ?thesis
        by (simp add: item_ok_def len h'old)
    next
      case 2
      then obtain i where i: "i \<le> r" and it: "it = (n + i, dep + 1, i, fp * fact (r - i))"
        by (auto simp: new_def simp del: upt_Suc)
      have "fp * fact (r - i) * fact (r - (r - i)) dvd (fact x :: int)"
        by (rule denominator_dvd [OF _ top(6)]) simp
      with i have "fp * fact (r - i) * fact i dvd (fact x :: int)" by simp
      with i top(4,5) lvl show ?thesis
        by (simp add: it item_ok_def len h'new)
    qed
  next
    fix c b assume c: "c < length h'" and b: "Ref b \<in> set (h' ! c)"
    consider "c = a" | "c < n" "c \<noteq> a" | "n \<le> c" by linarith
    then show "b < length h'"
    proof cases
      case 1
      with b show ?thesis by (auto simp: h'a len simp del: upt_Suc)
    next
      case 2
      with b top(10) [of c b] show ?thesis by (simp add: h'old len n_def)
    next
      case 3
      with b c show ?thesis by (simp add: h'new len)
    qed
  qed
  have e: "D - dep = Suc (D - (dep + 1))" using lvl by simp
  have "sum_list (map (weight D) new) = sum_list (map (\<lambda>i. (i + 2) ^ (D - (dep + 1))) [0..<Suc r])"
    by (simp add: new_def weight_def comp_def del: upt_Suc)
  also have "\<dots> < (r + 2) ^ (D - dep)"
    unfolding e by (rule weight_sum_less)
  finally show "gl_measure D st' < gl_measure D st"
    by (simp add: gl_measure_def hs stk weight_def)
  show "length (heap st) \<le> length (heap st')" by (simp add: hs len n_def)
  fix c assume c: "c < length (heap st)"
  have "expected x D (s @ new) h' c = expected x D (s @ [(a, dep, r, fp)]) (heap st) c"
  proof (rule expected_step [OF _ top(1) _ _ _ _ _ c])
    show "distinct (map fst (s @ [(a, dep, r, fp)]))"
      using inv stk by (simp add: gl_inv_def)
    show "\<And>c b. c < length (heap st) \<Longrightarrow> Ref b \<in> set (heap st ! c) \<Longrightarrow> b < length (heap st)"
      by (rule top(10))
    show "length (heap st) \<le> length h'" by (simp add: len n_def)
    show "\<And>c. c < length (heap st) \<Longrightarrow> c \<noteq> a \<Longrightarrow> h' ! c = heap st ! c"
      by (simp add: h'old n_def)
    show "\<And>b. b \<in> fst ` set new \<Longrightarrow> length (heap st) \<le> b"
      by (simp add: fst_new n_def)
    have none_a: "map_of (s @ new) a = None"
      using top(7) an by (simp add: map_of_eq_None_iff fst_new)
    have pend: "expected x D (s @ new) h' (n + i) = Nested (layer_rec x (D - 1 - (dep + 1)) i (fp * fact (r - i)))"
      if "i \<le> r" for i
    proof -
      have "n + i \<notin> fst ` set s" using s_lt by force
      then have "map_of s (n + i) = None" by (simp add: map_of_eq_None_iff)
      moreover have "map_of new (n + i) = Some (dep + 1, i, fp * fact (r - i))"
        unfolding new_def using that by (intro map_of_enum) simp
      ultimately have "map_of (s @ new) (n + i) = Some (dep + 1, i, fp * fact (r - i))"
        by (simp add: map_add_def)
      then show ?thesis by (subst expected.simps) (simp del: map_of_append)
    qed
    obtain j where j: "D - Suc dep = Suc j" "D - Suc (Suc dep) = j"
      using lvl by (cases "D - Suc dep") auto
    have "map (\<lambda>ce. case ce of Val v \<Rightarrow> Scalar v
                       | Ref b \<Rightarrow> if a < b \<and> b < length h' then expected x D (s @ new) h' b else Nested [])
                (map Ref [n..<n + Suc r])
        = layer_rec x (Suc j) r fp"
    proof (rule nth_equalityI)
      show "length (map (\<lambda>ce. case ce of Val v \<Rightarrow> Scalar v
                       | Ref b \<Rightarrow> if a < b \<and> b < length h' then expected x D (s @ new) h' b else Nested [])
                (map Ref [n..<n + Suc r])) = length (layer_rec x (Suc j) r fp)"
        by simp
    next
      fix i assume "i < length (map (\<lambda>ce. case ce of Val v \<Rightarrow> Scalar v
                       | Ref b \<Rightarrow> if a < b \<and> b < length h' then expected x D (s @ new) h' b else Nested [])
                (map Ref [n..<n + Suc r]))"
      then have i: "i \<le> r" by simp
      then have "[n..<n + Suc r] ! i = n + i" by (simp del: upt_Suc)
      with i an show "map (\<lambda>ce. case ce of Val v \<Rightarrow> Scalar v
                       | Ref b \<Rightarrow> if a < b \<and> b < length h' then expected x D (s @ new) h' b else Nested [])
                (map Ref [n..<n + Suc r]) ! i = layer_rec x (Suc j) r fp ! i"
        by (simp add: len pend j rev_upt_nth del: upt_Suc)
    qed
    then show "expected x D (s @ new) h' a = Nested (layer_rec x (D - 1 - dep) r fp)"
      by (subst expected.simps) (simp add: none_a h'a j del: map_of_append upt_Suc layer_rec.simps)
  qed
  then show "expected x D (stack st') (heap st') c = expected x D (stack st) (heap st) c"
    by (simp add: hs stk)
qed

text \<open>
  Hence the loop ends from every state that satisfies the invariant, raising nothing, and
  the final store holds at each address the value expected at the start.
\<close>

lemma gl_loop_runs:
  assumes tab: "\<And>k. k \<le> x \<Longrightarrow> py_get tab (int k) = ret (fact k)"
    and dv: "\<And>b. b \<noteq> 0 \<Longrightarrow> b dvd fact x \<Longrightarrow> dv (fact x) b = ret (fact x div b)"
    and dim: "2 \<le> dim" and D: "D = nat (dim - 1)"
  shows "gl_inv x D st \<Longrightarrow>
         \<exists>st'. gl_loop dv tab x dim st = ret st' \<and> stack st' = [] \<and>
               (\<forall>c < length (heap st).
                  expected x D [] (heap st') c = expected x D (stack st) (heap st) c)"
proof (induction st rule: measure_induct_rule [where f = "gl_measure D"])
  case (less st)
  show ?case
  proof (cases "stack st = []")
    case True
    then have "gl_loop dv tab x dim st = ret st"
      by (subst gl_loop.simps) (simp add: ret_def)
    with True show ?thesis by auto
  next
    case False
    then obtain s top where "stack st = s @ [top]"
      by (cases "stack st" rule: rev_cases) auto
    then obtain a dep r fp where stk: "stack st = s @ [(a, dep, r, fp)]"
      by (cases top) auto
    note top = inv_top [OF less.prems stk]
    have "\<exists>st1. gl_body dv tab x dim st = ret st1 \<and> gl_inv x D st1 \<and>
                gl_measure D st1 < gl_measure D st \<and> length (heap st) \<le> length (heap st1) \<and>
                (\<forall>c < length (heap st).
                   expected x D (stack st1) (heap st1) c = expected x D (stack st) (heap st) c)"
    proof (cases "Suc dep = D")
      case True
      then have lvl: "int dep + 1 = dim - 1" using D dim by simp
      from gl_body_leaves [where dv = dv and tab = tab and x = x, OF tab dv stk lvl top(1) top(4) top(5) top(6)]
        step_leaves [OF less.prems stk True refl]
      show ?thesis by blast
    next
      case False
      with top(3) have lt: "Suc dep < D" by simp
      then have lvl: "int dep + 1 \<noteq> dim - 1" "int dep \<noteq> dim - 1" using D dim by simp_all
      from gl_body_sublists [where dv = dv and tab = tab and x = x, OF tab stk lvl top(1) top(4)]
        step_sublists [OF less.prems stk lt refl]
      show ?thesis by blast
    qed
    then obtain st1 where st1: "gl_body dv tab x dim st = ret st1" "gl_inv x D st1"
      "gl_measure D st1 < gl_measure D st" "length (heap st) \<le> length (heap st1)"
      "\<And>c. c < length (heap st) \<Longrightarrow>
         expected x D (stack st1) (heap st1) c = expected x D (stack st) (heap st) c"
      by blast
    from less.IH [OF st1(3) st1(2)] obtain st' where st':
      "gl_loop dv tab x dim st1 = ret st'" "stack st' = []"
      "\<And>c. c < length (heap st1) \<Longrightarrow>
         expected x D [] (heap st') c = expected x D (stack st1) (heap st1) c"
      by blast
    have "gl_loop dv tab x dim st = gl_loop dv tab x dim st1"
      using False st1(1) by (subst gl_loop.simps) (simp add: ret_def)
    with st' st1(4,5) show ?thesis by auto
  qed
qed

lemma expected_empty: "expected x D [] h a = reify h a"
proof (induction h a rule: reify.induct)
  case (1 h a)
  have "map (\<lambda>c. case c of Val v \<Rightarrow> Scalar v
                  | Ref b \<Rightarrow> if a < b \<and> b < length h then expected x D [] h b else Nested []) (h ! a)
      = map (\<lambda>c. case c of Val v \<Rightarrow> Scalar v
                  | Ref b \<Rightarrow> if a < b \<and> b < length h then reify h b else Nested []) (h ! a)"
    by (rule map_cong [OF refl]) (auto split: cell.splits simp: "1.IH")
  then show ?case
    by (subst expected.simps, subst reify.simps) simp
qed

lemma generate_layer_eq:
  assumes tab: "\<And>k. k \<le> x \<Longrightarrow> py_get tab (int k) = ret (fact k)"
    and dv: "\<And>b. b \<noteq> 0 \<Longrightarrow> b dvd fact x \<Longrightarrow> dv (fact x) b = ret (fact x div b)"
    and dim: "2 \<le> dim"
  shows "generate_layer dv tab x dim = ret (Nested (layer_rec x (nat dim - 2) x 1))"
proof -
  define D where "D = nat (dim - 1)"
  let ?st0 = "\<lparr>heap = [[]], stack = [(0, 0, x, 1)]\<rparr>"
  have "gl_inv x D ?st0"
    using dim by (simp add: gl_inv_def item_ok_def D_def)
  from gl_loop_runs [where dv = dv and tab = tab and x = x, OF tab dv dim D_def this] obtain st' where st':
    "gl_loop dv tab x dim ?st0 = ret st'"
    "expected x D [] (heap st') 0 = expected x D [(0, 0, x, 1)] [[]] 0"
    by auto
  have "expected x D [(0, 0, x, 1)] [[]] 0 = Nested (layer_rec x (D - 1) x 1)"
    by (subst expected.simps) simp
  moreover have "D - 1 = nat dim - 2" using dim by (simp add: D_def)
  ultimately have "reify (heap st') 0 = Nested (layer_rec x (nat dim - 2) x 1)"
    using st'(2) by (simp add: expected_empty)
  then show ?thesis by (simp add: generate_layer_def st'(1))
qed

lemma foldl_snoc_map: "foldl (\<lambda>s x. s @ [f x]) acc xs = acc @ map f xs"
  by (induction xs arbitrary: acc) simp_all

lemma dv_floordiv: "b \<noteq> 0 \<Longrightarrow> b dvd a \<Longrightarrow> floordiv a b = ret (a div b)"
  by (simp add: floordiv_def)

lemma dv_exactdiv: "b \<noteq> 0 \<Longrightarrow> b dvd a \<Longrightarrow> exactdiv a b = ret (a div b)"
  by (simp add: exactdiv_def)

text \<open>
  The builder, for every division that agrees with \<open>//\<close> on exact quotients: layer \<open>x\<close> is
  \<open>layer_of d x\<close>.
\<close>

lemma createPascalSimplex_with_eq:
  assumes dv: "\<And>a b. b \<noteq> 0 \<Longrightarrow> b dvd a \<Longrightarrow> dv a b = ret (a div b)"
    and d: "1 \<le> dimension"
  shows "createPascalSimplex_with dv layers dimension =
         ret (map (layer_of (nat dimension)) [0..<nat layers])"
proof (cases "dimension = 1")
  case True
  have "map (layer_of (Suc 0)) [0..<nat layers] = map (\<lambda>x. Scalar 1) [0..<nat layers]"
    by (simp add: layer_of_def)
  with True show ?thesis
    by (simp add: createPascalSimplex_with_def map_replicate_const)
next
  case False
  with d have d2: "2 \<le> dimension" by simp
  from fact_table_eq [of "nat layers"] obtain tab where tab: "fact_table (nat layers) = ret tab"
    "length tab = nat layers" "\<forall>i<nat layers. tab ! i = fact i"
    by blast
  let ?body = "\<lambda>x simplex.
          andthen (generate_layer dv tab x dimension)
                  (\<lambda>layer. ret (simplex @ [layer]))"
  have body: "?body x s = ret (s @ [layer_of (nat dimension) x])"
    if "x \<in> set [0..<nat layers]" for x s
  proof -
    from that have x: "x < nat layers" by simp
    have "generate_layer dv tab x dimension
        = ret (Nested (layer_rec x (nat dimension - 2) x 1))"
      using x by (intro generate_layer_eq table_get [OF tab(2,3)] dv d2) simp_all
    with d2 show ?thesis by (simp add: layer_of_def)
  qed
  have "for_loop [0..<nat layers] ?body []
      = ret (foldl (\<lambda>s x. s @ [layer_of (nat dimension) x]) [] [0..<nat layers])"
    by (rule for_loop_pure) (rule body)
  with d2 show ?thesis
    by (simp add: createPascalSimplex_with_def foldl_snoc_map tab(1))
qed

lemma createPascalSimplex_eq:
  "1 \<le> dimension \<Longrightarrow>
   createPascalSimplex layers dimension = ret (map (layer_of (nat dimension)) [0..<nat layers])"
  unfolding createPascalSimplex_def by (rule createPascalSimplex_with_eq [OF dv_floordiv])

section \<open>Boundaries, prefixes and exact division\<close>

lemma py_range_empty: "b \<le> a \<Longrightarrow> py_range a b = []"
  by (simp add: py_range_def)

lemma calculateSequence_zero: "-1 \<le> m \<Longrightarrow> calculateSequence d m 0 = ret []"
  by (simp add: calculateSequence_def py_range_empty)

text \<open>
  Claim C7. \<open>createPascalSimplex(layers, dimension)\<close> raises its \<open>ValueError\<close> (the spec's
  InvalidParameter) for every \<open>dimension < 1\<close>, whatever \<open>layers\<close> is; for every
  \<open>dimension \<ge> 1\<close> it accepts \<open>layers = 0\<close> and returns the empty simplex; and
  \<open>calculateSequence(d, m, 0)\<close> returns the empty sequence for every \<open>d \<ge> 1\<close>, \<open>m \<ge> 1\<close>.
\<close>

theorem C7_boundaries:
  "(dimension < 1 \<longrightarrow> createPascalSimplex layers dimension = raise ValueError) \<and>
   (1 \<le> d \<longrightarrow> createPascalSimplex 0 d = ret []) \<and>
   (1 \<le> d \<longrightarrow> 1 \<le> m \<longrightarrow> calculateSequence d m 0 = ret [])"
  by (simp add: createPascalSimplex_def createPascalSimplex_with_def calculateSequence_zero)

theorem C7_boundaries_witness:
  "(0::int) < 1 \<and> createPascalSimplex 3 0 = raise ValueError \<and>
   (1::int) \<le> 2 \<and> createPascalSimplex 0 2 = ret [] \<and>
   (1::int) \<le> 4 \<and> calculateSequence 2 4 0 = ret []"
  using C7_boundaries [of 0 3 2 4] by simp

text \<open>
  Claim C10. For \<open>0 \<le> k \<le> k'\<close> and \<open>d \<ge> 1\<close>, both calls return, and
  \<open>createPascalSimplex(k, d)\<close> is the list of the first \<open>k\<close> layers of
  \<open>createPascalSimplex(k', d)\<close>: a layer depends on its index and on \<open>d\<close> only, although
  the two calls compute factorial tables of different sizes.
\<close>

theorem C10_prefix:
  assumes "0 \<le> k" "k \<le> k'" "1 \<le> d"
  shows "\<exists>s s'. createPascalSimplex k d = ret s \<and> createPascalSimplex k' d = ret s' \<and>
                s = take (nat k) s'"
proof -
  have "take (nat k) (map (layer_of (nat d)) [0..<nat k']) = map (layer_of (nat d)) [0..<nat k]"
    using assms by (simp add: take_map take_upt)
  then show ?thesis
    using assms(3) by (simp add: createPascalSimplex_eq)
qed

theorem C10_prefix_witness:
  "\<exists>s s'. createPascalSimplex 2 3 = ret s \<and> createPascalSimplex 5 3 = ret s' \<and>
           s = take (nat 2) s'"
  using C10_prefix [of 2 5 3] by simp

text \<open>
  Claim C8. With \<open>dimension \<ge> 2\<close> every floor division \<open>fact[x] // denominator\<close> that
  \<open>createPascalSimplex\<close> performs is exact: the denominator is not zero and divides
  \<open>fact[x]\<close>. Stated on the run: replace \<open>//\<close> by any operation \<open>dv\<close> that agrees with it
  on the pairs with a nonzero divisor and remainder zero, and is arbitrary elsewhere (it
  may raise, hang or return anything); the builder returns, and returns the same simplex.
  So no division of the run has a remainder. The division \<open>exactdiv\<close>, which raises on a
  remainder, is one such operation.
\<close>

theorem C8_exact_division:
  assumes "2 \<le> dimension"
    and "\<And>a b. b \<noteq> 0 \<Longrightarrow> b dvd a \<Longrightarrow> dv a b = floordiv a b"
  shows "\<exists>s. createPascalSimplex layers dimension = ret s \<and>
             createPascalSimplex_with dv layers dimension = ret s"
proof -
  have "dv a b = ret (a div b)" if "b \<noteq> 0" "b dvd a" for a b
    using assms(2) [OF that] that by (simp add: floordiv_def)
  from createPascalSimplex_with_eq [of dv, OF this] assms(1) show ?thesis
    by (simp add: createPascalSimplex_eq)
qed

theorem C8_exact_division_witness:
  "\<exists>s. createPascalSimplex 4 3 = ret s \<and> createPascalSimplex_with exactdiv 4 3 = ret s"
  using C8_exact_division [of 3 exactdiv 4] by (simp add: exactdiv_def floordiv_def)

section \<open>Row sums\<close>

lemma csnl_scalars:
  "flat_sum (map (\<lambda>k. Scalar (f k)) ks) = sum_list (map f ks)"
  by (induction ks) simp_all

lemma csnl_nested:
  "flat_sum (map (\<lambda>k. Nested (g k)) ks) = sum_list (map (\<lambda>k. flat_sum (g k)) ks)"
  by (induction ks) simp_all

text \<open>
  \<open>calculate_sum_nested_list\<close> either returns the sum of the scalars or raises
  \<open>RecursionError\<close>; it returns when the nesting of the list is within the free frames.
\<close>

lemma sum_from_cases:
  "sum_from frames total_sum l = raise RecursionError \<or>
   sum_from frames total_sum l = ret (total_sum + flat_sum l)"
proof (induction frames total_sum l rule: sum_from.induct)
  case (1 frames total_sum)
  show ?case by simp
next
  case (2 frames total_sum l rest)
  show ?case
  proof (cases frames)
    case 0
    then show ?thesis by simp
  next
    case (Suc below)
    from "2.IH"(1) [OF Suc] consider "sum_from below 0 l = raise RecursionError"
      | "sum_from below 0 l = ret (0 + flat_sum l)" by blast
    then show ?thesis
    proof cases
      case 1
      then show ?thesis by (simp add: Suc)
    next
      case 2
      with "2.IH"(2) [OF Suc, of "0 + flat_sum l"] show ?thesis
        by (auto simp: Suc add.assoc)
    qed
  qed
next
  case (3 frames total_sum v rest)
  then show ?case by (auto simp: add.assoc)
qed

lemma fold_max_le:
  "(\<And>n. n \<in> set xs \<Longrightarrow> f n \<le> b) \<Longrightarrow> a \<le> b \<Longrightarrow> fold max (map f xs) a \<le> (b::nat)"
  by (induction xs arbitrary: a) simp_all

lemma fold_max_start: "a \<le> fold max (map f zs) (a::nat)"
proof (induction zs arbitrary: a)
  case Nil
  show ?case by simp
next
  case (Cons z zs)
  have "a \<le> max (f z) a" by simp
  also have "\<dots> \<le> fold max (map f zs) (max (f z) a)" by (rule Cons.IH)
  finally show ?case by simp
qed

lemma fold_max_ge:
  "n \<in> set xs \<Longrightarrow> f n \<le> fold max (map f xs) (a::nat)"
proof (induction xs arbitrary: a)
  case Nil
  then show ?case by simp
next
  case (Cons y ys)
  show ?case
  proof (cases "n = y")
    case True
    have "f y \<le> max (f y) a" by simp
    also have "\<dots> \<le> fold max (map f ys) (max (f y) a)" by (rule fold_max_start)
    finally show ?thesis using True by simp
  next
    case False
    with Cons.prems have "n \<in> set ys" by simp
    from Cons.IH [OF this] show ?thesis by simp
  qed
qed

lemma sum_from_fits:
  "(\<And>n. n \<in> set l \<Longrightarrow> nesting n \<le> frames) \<Longrightarrow>
   sum_from frames total_sum l = ret (total_sum + flat_sum l)"
proof (induction frames total_sum l rule: sum_from.induct)
  case (1 frames total_sum)
  show ?case by simp
next
  case (2 frames total_sum l rest)
  from "2.prems" [of "Nested l"] have deep: "Suc (fold max (map nesting l) 0) \<le> frames" by simp
  then obtain below where below: "frames = Suc below" by (cases frames) auto
  have "nesting n \<le> below" if "n \<in> set l" for n
    using fold_max_ge [OF that, of nesting 0] deep below by simp
  from "2.IH"(1) [OF below this] have inner: "sum_from below 0 l = ret (0 + flat_sum l)" .
  have "sum_from frames (total_sum + (0 + flat_sum l)) rest
      = ret (total_sum + (0 + flat_sum l) + flat_sum rest)"
    by (rule "2.IH"(2) [OF below]) (simp add: "2.prems")
  with inner show ?case by (simp add: below add.assoc)
next
  case (3 frames total_sum v rest)
  have "sum_from frames (total_sum + v) rest = ret (total_sum + v + flat_sum rest)"
    by (rule "3.IH") (simp add: "3.prems")
  then show ?case by (simp add: add.assoc)
qed

lemma csnl_fits:
  "nesting (Nested l) \<le> limit \<Longrightarrow> calculate_sum_nested_list limit l = ret (flat_sum l)"
proof -
  assume deep: "nesting (Nested l) \<le> limit"
  then obtain frames where frames: "limit = Suc frames" by (cases limit) auto
  have "sum_from frames 0 l = ret (0 + flat_sum l)"
  proof (rule sum_from_fits)
    fix n assume "n \<in> set l"
    from fold_max_ge [OF this, of nesting 0] deep frames show "nesting n \<le> frames" by simp
  qed
  then show ?thesis by (simp add: calculate_sum_nested_list_def frames)
qed

lemma csnl_cases:
  "calculate_sum_nested_list limit l = raise RecursionError \<or>
   calculate_sum_nested_list limit l = ret (flat_sum l)"
  using sum_from_cases [of _ 0 l]
  by (auto simp: calculate_sum_nested_list_def split: nat.splits)

lemma sum_list_rev_upt:
  "sum_list (map f (rev [0..<Suc r])) = (\<Sum>k\<le>r. f k)"
proof -
  have "sum_list (map f (rev [0..<Suc r])) = sum_list (rev (map f [0..<Suc r]))"
    by (simp only: rev_map)
  also have "\<dots> = sum_list (map f [0..<Suc r])" by (rule sum_list_rev)
  also have "\<dots> = sum f (set [0..<Suc r])" by (rule interv_sum_list_conv_sum_set_nat)
  also have "set [0..<Suc r] = {..r}" by auto
  finally show ?thesis .
qed

lemma coeff_binomial:
  assumes M: "fp * fact r * M = (fact x :: int)" and fp: "0 < fp" and k: "k \<le> r"
  shows "fact x div (fp * fact k * fact (r - k)) = M * int (r choose k)"
proof -
  have nz: "fp * fact k * fact (r - k) \<noteq> 0" using fp by simp
  have "fact x = fp * (fact k * fact (r - k) * int (r choose k)) * M"
    using M fact_binomial_int [OF k] by simp
  also have "\<dots> = (fp * fact k * fact (r - k)) * (M * int (r choose k))"
    by (simp add: mult_ac)
  finally show ?thesis using nz by simp
qed

text \<open>
  If \<open>M = x! / (fp \<cdot> r!)\<close>, each coefficient below is \<open>M\<close> times a product of binomial
  coefficients, and the sublist over \<open>j + 2\<close> remaining parts sums to \<open>M (j + 2)\<^sup>r\<close>.
\<close>

lemma layer_rec_sum:
  assumes "fp * fact r * M = (fact x :: int)" "0 < fp"
  shows "flat_sum (layer_rec x j r fp) = M * (int j + 2) ^ r"
  using assms
proof (induction j arbitrary: r fp M)
  case 0
  have "flat_sum (layer_rec x 0 r fp)
      = (\<Sum>k\<le>r. fact x div (fp * fact k * fact (r - k)))"
    by (simp only: layer_rec.simps csnl_scalars sum_list_rev_upt)
  also have "\<dots> = (\<Sum>k\<le>r. M * int (r choose k))"
    by (rule sum.cong [OF refl]) (simp add: coeff_binomial [OF "0.prems"])
  also have "\<dots> = M * int (\<Sum>k\<le>r. r choose k)"
    by (simp add: sum_distrib_left)
  also have "\<dots> = M * 2 ^ r" by (simp only: choose_row_sum) simp
  finally show ?case by simp
next
  case (Suc j)
  have tm: "flat_sum (layer_rec x j (r - k) (fp * fact k))
            = M * int (r choose k) * (int j + 2) ^ (r - k)" if "k \<le> r" for k
  proof (rule Suc.IH)
    have "fp * fact k * fact (r - k) * (M * int (r choose k))
        = fp * (fact k * fact (r - k) * int (r choose k)) * M"
      by (simp add: mult_ac)
    also have "\<dots> = fact x" using Suc.prems(1) fact_binomial_int [OF that] by simp
    finally show "fp * fact k * fact (r - k) * (M * int (r choose k)) = fact x" .
    show "0 < fp * fact k" using Suc.prems(2) by simp
  qed
  have "flat_sum (layer_rec x (Suc j) r fp)
      = (\<Sum>k\<le>r. flat_sum (layer_rec x j (r - k) (fp * fact k)))"
    by (simp only: layer_rec.simps csnl_nested sum_list_rev_upt)
  also have "\<dots> = (\<Sum>k\<le>r. M * int (r choose k) * (int j + 2) ^ (r - k))"
    by (rule sum.cong [OF refl]) (simp add: tm)
  also have "\<dots> = M * (\<Sum>k\<le>r. of_nat (r choose k) * 1 ^ k * (int j + 2) ^ (r - k))"
    by (simp add: sum_distrib_left mult_ac)
  also have "\<dots> = M * (1 + (int j + 2)) ^ r"
    by (simp only: binomial_ring [symmetric])
  finally show ?case by (simp add: add_ac)
qed

lemma layer_sum_layer_of:
  assumes "1 \<le> d"
  shows "layer_sum (layer_of d x) = int d ^ x"
proof (cases "d = 1")
  case True
  then show ?thesis by (simp add: layer_of_def)
next
  case False
  with assms have "int (d - 2) + 2 = int d" by simp
  with False show ?thesis
    using layer_rec_sum [of 1 x 1 x "d - 2"] by (simp add: layer_of_def)
qed

text \<open>
  The lists of \<open>layer_rec x j\<close> are nested \<open>j + 1\<close> deep: summing them takes \<open>j\<close> frames
  below the first, and raises with fewer.
\<close>

lemma nesting_layer_rec: "n \<in> set (layer_rec x j r fp) \<Longrightarrow> nesting n \<le> j"
proof (induction j arbitrary: n r fp)
  case 0
  then show ?case by auto
next
  case (Suc j)
  then obtain k where n: "n = Nested (layer_rec x j (r - k) (fp * fact k))"
    by (auto simp del: upt_Suc)
  have "fold max (map nesting (layer_rec x j (r - k) (fp * fact k))) 0 \<le> j"
    by (rule fold_max_le) (simp_all add: Suc.IH)
  then show ?case by (simp add: n)
qed

lemma nesting_layer: "nesting (Nested (layer_rec x j r fp)) \<le> Suc j"
proof -
  have "fold max (map nesting (layer_rec x j r fp)) 0 \<le> j"
    by (rule fold_max_le) (simp_all add: nesting_layer_rec)
  then show ?thesis by simp
qed

lemma sum_from_too_deep:
  "frames < j \<Longrightarrow> sum_from frames total_sum (layer_rec x j r fp) = raise RecursionError"
proof (induction j arbitrary: frames total_sum r fp)
  case 0
  then show ?case by simp
next
  case (Suc j)
  show ?case
  proof (cases frames)
    case 0
    then show ?thesis by simp
  next
    case (Suc below)
    with Suc.prems have "below < j" by simp
    from Suc.IH [OF this, of 0 0 "fp * fact r"] show ?thesis
      by (simp add: Suc)
  qed
qed

lemma csnl_too_deep:
  "limit \<le> j \<Longrightarrow> calculate_sum_nested_list limit (layer_rec x j r fp) = raise RecursionError"
  by (cases limit) (simp_all add: calculate_sum_nested_list_def sum_from_too_deep del: layer_rec.simps)

text \<open>
  Claim C5. For \<open>layers \<ge> 0\<close>, \<open>d \<ge> 1\<close> and \<open>0 \<le> x < layers\<close>, the call returns and the
  sum of all scalars in layer \<open>x\<close> of \<open>createPascalSimplex(layers, d)\<close> is \<open>d\<^sup>x\<close>. It is also
  what \<open>calculate_sum_nested_list\<close> returns on a nested layer when at least \<open>d - 1\<close>
  frames are free, one per level of the layer.
\<close>

theorem C5_row_sum:
  assumes "0 \<le> layers" "1 \<le> d" "0 \<le> x" "x < layers"
  shows "\<exists>s. createPascalSimplex layers d = ret s \<and> layer_sum (s ! nat x) = d ^ nat x \<and>
             (\<forall>l. s ! nat x = Nested l \<longrightarrow> nat d - 1 \<le> limit \<longrightarrow>
                  calculate_sum_nested_list limit l = ret (d ^ nat x))"
proof -
  from assms have *: "nat x < nat layers" "1 \<le> nat d" "int (nat d) = d" by simp_all
  have sum: "layer_sum (layer_of (nat d) (nat x)) = d ^ nat x"
    using layer_sum_layer_of [OF *(2), of "nat x"] *(3) by simp
  have "calculate_sum_nested_list limit l = ret (d ^ nat x)"
    if l: "layer_of (nat d) (nat x) = Nested l" and limit: "nat d - 1 \<le> limit" for l
  proof -
    from l have l': "l = layer_rec (nat x) (nat d - 2) (nat x) 1" and d1: "nat d \<noteq> 1"
      by (auto simp: layer_of_def split: if_splits)
    have "nesting (Nested l) \<le> Suc (nat d - 2)" unfolding l' by (rule nesting_layer)
    also have "\<dots> \<le> limit" using limit d1 *(2) by simp
    finally have "calculate_sum_nested_list limit l = ret (flat_sum l)" by (rule csnl_fits)
    with sum l show ?thesis by simp
  qed
  with sum *(1) show ?thesis
    using assms(2) by (simp add: createPascalSimplex_eq)
qed

theorem C5_row_sum_witness:
  "\<exists>s l. createPascalSimplex 5 3 = ret s \<and> layer_sum (s ! nat 4) = 3 ^ nat 4 \<and>
         s ! nat 4 = Nested l \<and> calculate_sum_nested_list 2 l = ret (3 ^ nat 4)"
proof -
  from C5_row_sum [of 5 3 4 2] obtain s where
    s: "createPascalSimplex 5 3 = ret s" "layer_sum (s ! nat 4) = 3 ^ nat 4"
       "\<forall>l. s ! nat 4 = Nested l \<longrightarrow> calculate_sum_nested_list 2 l = ret (3 ^ nat 4)"
    by auto
  have "createPascalSimplex 5 3 = ret (map (layer_of 3) [0..<5])"
    using createPascalSimplex_eq [of 3 5] by simp
  with s(1) have "s = map (layer_of 3) [0..<5]" by (simp add: ret_def)
  moreover have "map (layer_of 3) [0..<5] ! 4 = layer_of 3 (0 + 4)" by (rule nth_map_upt) simp
  ultimately have "s ! nat 4 = layer_of 3 4" by simp
  then have "\<exists>l. s ! nat 4 = Nested l" by (simp add: layer_of_def)
  with s show ?thesis by blast
qed

section \<open>Every scalar is a multinomial coefficient\<close>

lemma length_layer_rec [simp]: "length (layer_rec x j r fp) = Suc r"
  by (cases j) simp_all

lemma layer_rec_nth_0:
  "i \<le> r \<Longrightarrow> layer_rec x 0 r fp ! i = Scalar (fact x div (fp * fact (r - i) * fact i))"
  by (simp add: rev_upt_nth del: upt_Suc)

lemma layer_rec_nth_Suc:
  "i \<le> r \<Longrightarrow> layer_rec x (Suc j) r fp ! i = Nested (layer_rec x j i (fp * fact (r - i)))"
  by (simp add: rev_upt_nth del: upt_Suc)

lemma node_at_Cons: "i \<le> r \<Longrightarrow> length l = Suc r \<Longrightarrow> node_at (Nested l) (i # p) = node_at (l ! i) p"
  by simp

lemma node_at_path:
  "length ks = Suc j \<Longrightarrow> sum_list ks \<le> r \<Longrightarrow>
   node_at (Nested (layer_rec x j r fp)) (path_of r ks)
   = Some (Scalar (fact x div (fp * prod_list (map fact ks) * fact (r - sum_list ks))))"
proof (induction j arbitrary: ks r fp)
  case 0
  then obtain k where ks: "ks = [k]" by (cases ks) auto
  with 0 have "k \<le> r" by simp
  then have "r - k < Suc r" "r - k \<le> r" "r - (r - k) = k" by arith+
  then show ?case
    by (simp add: ks layer_rec_nth_0 node_at_Cons [where r = r] del: layer_rec.simps node_at.simps(3))
next
  case (Suc j)
  then obtain k ks' where ks: "ks = k # ks'" "length ks' = Suc j" by (cases ks) auto
  with Suc.prems have k: "k \<le> r" "sum_list ks' \<le> r - k" by simp_all
  have "node_at (Nested (layer_rec x (Suc j) r fp)) (path_of r ks)
      = node_at (Nested (layer_rec x j (r - k) (fp * fact k))) (path_of (r - k) ks')"
  proof -
    from k(1) have "r - k < Suc r" "r - k \<le> r" "r - (r - k) = k" by arith+
    then show ?thesis
      by (simp add: ks layer_rec_nth_Suc node_at_Cons [where r = r] del: layer_rec.simps node_at.simps)
  qed
  also have "\<dots> = Some (Scalar (fact x div (fp * fact k * prod_list (map fact ks') * fact (r - k - sum_list ks'))))"
    by (rule Suc.IH [OF ks(2) k(2)])
  finally show ?case by (simp add: ks mult.assoc)
qed

lemma path_of_scalar:
  "node_at (Nested (layer_rec x j r fp)) p = Some (Scalar v) \<Longrightarrow>
   \<exists>ks. length ks = Suc j \<and> sum_list ks \<le> r \<and> p = path_of r ks"
proof (induction j arbitrary: p r fp)
  case 0
  from 0 obtain i p' where p: "p = i # p'" by (cases p) auto
  with 0 have i: "i \<le> r" by (simp split: if_splits)
  with 0 p have "node_at (Scalar (fact x div (fp * fact (r - i) * fact i))) p' = Some (Scalar v)"
    by (simp add: layer_rec_nth_0 del: layer_rec.simps)
  then have "p' = []" by (cases p') auto
  with i p have "length [r - i] = Suc 0 \<and> sum_list [r - i] \<le> r \<and> p = path_of r [r - i]"
    by simp
  then show ?case by blast
next
  case (Suc j)
  from Suc.prems obtain i p' where p: "p = i # p'" by (cases p) auto
  with Suc.prems have i: "i \<le> r" by (simp split: if_splits)
  with Suc.prems p have "node_at (Nested (layer_rec x j i (fp * fact (r - i)))) p' = Some (Scalar v)"
    by (simp add: layer_rec_nth_Suc del: layer_rec.simps)
  from Suc.IH [OF this] obtain ks' where ks': "length ks' = Suc j" "sum_list ks' \<le> i" "p' = path_of i ks'"
    by blast
  with i p have "length ((r - i) # ks') = Suc (Suc j) \<and> sum_list ((r - i) # ks') \<le> r \<and>
                 p = path_of r ((r - i) # ks')"
    by simp
  then show ?case by blast
qed

lemma multinomial_dvd:
  "sum_list ks \<le> r \<Longrightarrow> prod_list (map fact ks) * fact (r - sum_list ks) dvd (fact r :: int)"
proof (induction ks arbitrary: r)
  case Nil
  show ?case by simp
next
  case (Cons k ks)
  then have k: "k \<le> r" "sum_list ks \<le> r - k" by simp_all
  have "fact k * (prod_list (map fact ks) * fact (r - k - sum_list ks)) dvd (fact k * fact (r - k) :: int)"
    by (rule mult_dvd_mono [OF dvd_refl Cons.IH [OF k(2)]])
  moreover have "(fact k * fact (r - k) :: int) dvd fact r"
    using fact_binomial_int [OF k(1)] by (metis dvd_triv_left)
  ultimately have "fact k * (prod_list (map fact ks) * fact (r - k - sum_list ks)) dvd (fact r :: int)"
    by (rule dvd_trans)
  then show ?case by (simp add: mult.assoc)
qed

lemma scalar_of_layer:
  assumes d: "1 \<le> d"
  shows "node_at (layer_of d x) p = Some (Scalar v) \<longleftrightarrow>
         (\<exists>ks. length ks = d - 1 \<and> sum_list ks \<le> x \<and> p = path_of x ks \<and>
               v * (prod_list (map fact ks) * fact (x - sum_list ks)) = fact x)"
proof (cases "d = 1")
  case True
  have "node_at (Scalar 1) p = Some (Scalar v) \<longleftrightarrow> p = [] \<and> v = 1"
    by (cases p) auto
  with True show ?thesis by (auto simp: layer_of_def)
next
  case False
  with d obtain j where j: "d - 2 = j" "d - 1 = Suc j" by (cases "d - 1") auto
  have lo: "layer_of d x = Nested (layer_rec x j x 1)"
    using False j by (simp add: layer_of_def)
  have den: "v * (prod_list (map fact ks) * fact (x - sum_list ks)) = fact x \<longleftrightarrow>
             v = fact x div (1 * prod_list (map fact ks) * fact (x - sum_list ks))"
    if "sum_list ks \<le> x" for ks :: "nat list"
  proof -
    let ?den = "prod_list (map fact ks) * fact (x - sum_list ks) :: int"
    have nz: "?den \<noteq> 0" by (auto simp: prod_list_zero_iff)
    from multinomial_dvd [OF that] obtain c where c: "fact x = ?den * c" by (auto simp: dvd_def)
    then have "fact x div ?den = c" using nz by simp
    with c nz show ?thesis by (auto simp: mult.commute)
  qed
  show ?thesis
  proof
    assume at: "node_at (layer_of d x) p = Some (Scalar v)"
    from path_of_scalar [OF at [unfolded lo]] obtain ks where
      ks: "length ks = Suc j" "sum_list ks \<le> x" "p = path_of x ks" by blast
    from node_at_path [OF ks(1,2), of x 1] at ks(3)
    have "v = fact x div (1 * prod_list (map fact ks) * fact (x - sum_list ks))"
      by (simp add: lo)
    with den [OF ks(2)] ks j show "\<exists>ks. length ks = d - 1 \<and> sum_list ks \<le> x \<and> p = path_of x ks \<and>
               v * (prod_list (map fact ks) * fact (x - sum_list ks)) = fact x"
      by auto
  next
    assume "\<exists>ks. length ks = d - 1 \<and> sum_list ks \<le> x \<and> p = path_of x ks \<and>
               v * (prod_list (map fact ks) * fact (x - sum_list ks)) = fact x"
    then obtain ks where ks: "length ks = Suc j" "sum_list ks \<le> x" "p = path_of x ks"
      "v * (prod_list (map fact ks) * fact (x - sum_list ks)) = fact x"
      using j by auto
    from den [OF ks(2)] ks(4) have "v = fact x div (1 * prod_list (map fact ks) * fact (x - sum_list ks))"
      by simp
    with node_at_path [OF ks(1,2), of x 1] ks(3) show "node_at (layer_of d x) p = Some (Scalar v)"
      by (simp add: lo)
  qed
qed

text \<open>
  Claim C2. For \<open>layers \<ge> 0\<close>, \<open>d \<ge> 1\<close> and a layer \<open>x\<close> of the result, the scalars of
  layer \<open>x\<close> are exactly the entries at the positions \<open>path_of x (k\<^sub>1, \<dots>, k\<^sub>d\<^sub>-\<^sub>1)\<close> of the
  multi-indices with \<open>k\<^sub>1 + \<dots> + k\<^sub>d\<^sub>-\<^sub>1 \<le> x\<close> (descending order at every level), and the
  scalar \<open>v\<close> at such a position is the multinomial coefficient: with
  \<open>k\<^sub>d = x - (k\<^sub>1 + \<dots> + k\<^sub>d\<^sub>-\<^sub>1)\<close>, \<open>v \<cdot> (k\<^sub>1! \<cdots> k\<^sub>d!) = x!\<close>.
\<close>

theorem C2_multinomial:
  assumes "0 \<le> layers" "1 \<le> d" "0 \<le> x" "x < layers"
  shows "\<exists>s. createPascalSimplex layers d = ret s \<and>
             (\<forall>p v. node_at (s ! nat x) p = Some (Scalar v) \<longleftrightarrow>
                (\<exists>ks. length ks = nat d - 1 \<and> sum_list ks \<le> nat x \<and> p = path_of (nat x) ks \<and>
                      v * (prod_list (map fact ks) * fact (nat x - sum_list ks)) = fact (nat x)))"
proof -
  from assms have "nat x < nat layers" "1 \<le> nat d" by simp_all
  then show ?thesis
    using assms(2) scalar_of_layer [of "nat d" "nat x"]
    by (simp add: createPascalSimplex_eq)
qed

theorem C2_multinomial_witness:
  "\<exists>s. createPascalSimplex 5 3 = ret s \<and>
       (\<forall>p v. node_at (s ! nat 4) p = Some (Scalar v) \<longleftrightarrow>
          (\<exists>ks. length ks = nat 3 - 1 \<and> sum_list ks \<le> nat 4 \<and> p = path_of (nat 4) ks \<and>
                v * (prod_list (map fact ks) * fact (nat 4 - sum_list ks)) = fact (nat 4)))"
  using C2_multinomial [of 5 3 4] by simp

section \<open>The walk of a layer ends\<close>

text \<open>One pass of the walk, case by case.\<close>

lemma walk_negative:
  "int layer - int i * m < 0 \<Longrightarrow> walk limit S m layer acc i = ret (acc, NegativeIndex)"
  by (subst walk.simps) (simp add: Let_def ret_def)

lemma walk_outside:
  "\<not> int layer - int i * m < 0 \<Longrightarrow> \<not> nat (int layer - int i * m) < length S \<Longrightarrow>
   walk limit S m layer acc i = ret (acc, IndexErrorCaught)"
  by (subst walk.simps) (simp add: Let_def ret_def)

lemma walk_bare:
  "\<not> int layer - int i * m < 0 \<Longrightarrow> nat (int layer - int i * m) < length S \<Longrightarrow>
   S ! nat (int layer - int i * m) = Scalar v \<Longrightarrow>
   walk limit S m layer acc i = ret (1, BareScalar)"
  by (subst walk.simps) (simp add: Let_def ret_def)

lemma walk_next:
  "\<not> int layer - int i * m < 0 \<Longrightarrow> nat (int layer - int i * m) < length S \<Longrightarrow>
   S ! nat (int layer - int i * m) = Nested vs \<Longrightarrow> add_sub_value limit vs i acc = ret a \<Longrightarrow>
   walk limit S m layer acc i = walk limit S m layer a (i + 1)"
  by (subst walk.simps) (simp add: Let_def ret_def)

lemma walk_raises:
  "\<not> int layer - int i * m < 0 \<Longrightarrow> nat (int layer - int i * m) < length S \<Longrightarrow>
   S ! nat (int layer - int i * m) = Nested vs \<Longrightarrow> add_sub_value limit vs i acc = raise e \<Longrightarrow>
   walk limit S m layer acc i = raise e"
  by (subst walk.simps) (simp add: Let_def raise_def)

lemma add_cases:
  "add_sub_value limit vs i acc = raise RecursionError \<or> (\<exists>a. add_sub_value limit vs i acc = ret a)"
proof (cases "i < length vs")
  case False
  then show ?thesis by (simp add: add_sub_value_def)
next
  case True
  show ?thesis
  proof (cases "vs ! i")
    case (Scalar v)
    with True show ?thesis by (simp add: add_sub_value_def)
  next
    case (Nested l)
    with True csnl_cases [of limit l] show ?thesis
      by (auto simp: add_sub_value_def)
  qed
qed

lemma add_fits:
  assumes "nesting (Nested vs) \<le> Suc limit"
  shows "add_sub_value limit vs i acc = ret (acc + (if i < length vs then layer_sum (vs ! i) else 0))"
proof (cases "i < length vs")
  case False
  then show ?thesis by (simp add: add_sub_value_def)
next
  case True
  show ?thesis
  proof (cases "vs ! i")
    case (Scalar v)
    with True show ?thesis by (simp add: add_sub_value_def)
  next
    case (Nested l)
    from True have "vs ! i \<in> set vs" by simp
    from fold_max_ge [OF this, of nesting 0] assms have "nesting (Nested l) \<le> limit"
      by (simp add: Nested)
    then have "calculate_sum_nested_list limit l = ret (flat_sum l)" by (rule csnl_fits)
    with True Nested show ?thesis by (simp add: add_sub_value_def)
  qed
qed

text \<open>
  With \<open>m \<ge> 1\<close> the candidate index falls in every pass, so the walk ends, on any simplex:
  it returns, or a sum it calls raises \<open>RecursionError\<close>, which needs a layer nested
  deeper than the free frames allow. When it returns it has not left through the caught
  \<open>IndexError\<close>, provided it started inside.
\<close>

lemma walk_ends:
  assumes m: "1 \<le> m"
  shows "(walk limit simplex m layer acc i = raise RecursionError \<and>
            \<not> (\<forall>l \<in> set simplex. nesting l \<le> Suc limit)) \<or>
         (\<exists>s e. walk limit simplex m layer acc i = ret (s, e) \<and>
               (layer < length simplex \<longrightarrow> e \<noteq> IndexErrorCaught))"
proof (induction i arbitrary: acc rule: measure_induct_rule [where f = "\<lambda>i. nat (int layer - int i * m + 1)"])
  case (less i)
  let ?idx = "int layer - int i * m"
  have "0 \<le> int i * m" using m by simp
  then have le: "?idx \<le> int layer" by simp
  show ?case
  proof (cases "?idx < 0")
    case True
    then show ?thesis by (simp add: walk_negative)
  next
    case nonneg: False
    show ?thesis
    proof (cases "nat ?idx < length simplex")
      case False
      with le have "\<not> layer < length simplex" by linarith
      with nonneg False show ?thesis by (simp add: walk_outside)
    next
      case True
      show ?thesis
      proof (cases "simplex ! nat ?idx")
        case (Scalar v)
        with nonneg True show ?thesis by (simp add: walk_bare)
      next
        case (Nested vs)
        from add_cases [of limit vs i acc] show ?thesis
        proof
          assume r: "add_sub_value limit vs i acc = raise RecursionError"
          have "\<not> nesting (Nested vs) \<le> Suc limit"
            using add_fits [of vs limit i acc] r by auto
          moreover have "Nested vs \<in> set simplex"
            using True Nested by (metis nth_mem)
          ultimately have "\<not> (\<forall>l \<in> set simplex. nesting l \<le> Suc limit)" by blast
          with walk_raises [OF nonneg True Nested r] show ?thesis by blast
        next
          assume "\<exists>a. add_sub_value limit vs i acc = ret a"
          then obtain a where a: "add_sub_value limit vs i acc = ret a" ..
          have "int (i + 1) * m = int i * m + m" by (simp add: algebra_simps)
          with nonneg m have "nat (int layer - int (i + 1) * m + 1) < nat (int layer - int i * m + 1)"
            by linarith
          from less.IH [OF this, of a] show ?thesis
            by (simp only: walk_next [OF nonneg True Nested a])
        qed
      qed
    qed
  qed
qed

text \<open>The loop over the layers: one value per layer, unless a walk raises.\<close>

lemma for_loop_appends:
  assumes "\<And>x s. x \<in> set xs \<Longrightarrow> body x s = raise e \<or> (\<exists>v. body x s = ret (s @ [v]))"
  shows "for_loop xs body s = raise e \<or>
         (\<exists>vs. for_loop xs body s = ret (s @ vs) \<and> length vs = length xs)"
  using assms
proof (induction xs arbitrary: s)
  case Nil
  show ?case by simp
next
  case (Cons x xs)
  from Cons.prems [of x s] consider "body x s = raise e" | v where "body x s = ret (s @ [v])"
    by auto
  then show ?case
  proof cases
    case 1
    then show ?thesis by simp
  next
    case 2
    have "for_loop xs body (s @ [v]) = raise e \<or>
          (\<exists>vs. for_loop xs body (s @ [v]) = ret ((s @ [v]) @ vs) \<and> length vs = length xs)"
      by (rule Cons.IH) (simp add: Cons.prems)
    then show ?thesis
    proof
      assume "for_loop xs body (s @ [v]) = raise e"
      with 2 show ?thesis by simp
    next
      assume "\<exists>vs. for_loop xs body (s @ [v]) = ret ((s @ [v]) @ vs) \<and> length vs = length xs"
      then obtain vs where "for_loop xs body (s @ [v]) = ret (s @ v # vs)" "length vs = length xs"
        by auto
      with 2 have "for_loop (x # xs) body s = ret (s @ v # vs) \<and> length (v # vs) = length (x # xs)"
        by simp
      then show ?thesis by blast
    qed
  qed
qed

lemma hypersums_outcome:
  assumes "\<And>L. L < length S \<Longrightarrow>
             walk limit S m L 0 0 = raise RecursionError \<or> (\<exists>s e. walk limit S m L 0 0 = ret (s, e))"
  shows "calculateHypersumsInPascalSimplex limit S m = raise RecursionError \<or>
         (\<exists>res. calculateHypersumsInPascalSimplex limit S m = ret res \<and> length res = length S)"
proof -
  let ?body = "\<lambda>layer res. andthen (walk limit S m layer 0 0) (\<lambda>(plain_sum, how). ret (res @ [plain_sum]))"
  have "?body L res = raise RecursionError \<or> (\<exists>v. ?body L res = ret (res @ [v]))"
    if "L \<in> set [0..<length S]" for L res
    using assms [of L] that by auto
  from for_loop_appends [of "[0..<length S]" ?body RecursionError "[]", OF this]
  show ?thesis by (simp add: calculateHypersumsInPascalSimplex_def)
qed

lemma hypersums_eq:
  assumes "\<And>L. L < length S \<Longrightarrow> \<exists>e. walk limit S m L 0 0 = ret (f L, e)"
  shows "calculateHypersumsInPascalSimplex limit S m = ret (map f [0..<length S])"
proof -
  let ?body = "\<lambda>layer res. andthen (walk limit S m layer 0 0) (\<lambda>(plain_sum, how). ret (res @ [plain_sum]))"
  have "?body L res = ret (res @ [f L])" if "L \<in> set [0..<length S]" for L res
  proof -
    from that assms obtain e where "walk limit S m L 0 0 = ret (f L, e)" by auto
    then show ?thesis by simp
  qed
  then have "for_loop [0..<length S] ?body [] = ret (foldl (\<lambda>res L. res @ [f L]) [] [0..<length S])"
    by (rule for_loop_pure)
  then show ?thesis
    by (simp add: calculateHypersumsInPascalSimplex_def foldl_snoc_map)
qed

lemma hypersums_ends:
  assumes m: "1 \<le> m"
  shows "calculateHypersumsInPascalSimplex limit simplex m = raise RecursionError \<or>
         (\<exists>res. calculateHypersumsInPascalSimplex limit simplex m = ret res \<and>
                length res = length simplex)"
  by (rule hypersums_outcome) (use walk_ends [OF m, of limit simplex _ 0 0] in blast)

lemma hypersums_returns:
  assumes m: "1 \<le> m" and fits: "\<forall>l \<in> set simplex. nesting l \<le> Suc limit"
  shows "\<exists>res. calculateHypersumsInPascalSimplex limit simplex m = ret res \<and>
               length res = length simplex"
proof -
  define f where "f L = (case walk limit simplex m L 0 0 of Some (Inr r) \<Rightarrow> fst r | _ \<Rightarrow> 0)" for L
  have "\<exists>e. walk limit simplex m L 0 0 = ret (f L, e)" for L
  proof -
    from walk_ends [OF m, of limit simplex L 0 0] fits
    obtain s e where "walk limit simplex m L 0 0 = ret (s, e)" by blast
    then show ?thesis by (auto simp: f_def ret_def)
  qed
  then have "calculateHypersumsInPascalSimplex limit simplex m = ret (map f [0..<length simplex])"
    by (intro hypersums_eq) auto
  then show ?thesis by simp
qed

text \<open>The layers the builder returns are nested \<open>d - 1\<close> deep.\<close>

lemma nesting_layer_of: "1 \<le> d \<Longrightarrow> nesting (layer_of d x) \<le> d - 1"
  using nesting_layer [of x "d - 2" x 1] by (auto simp: layer_of_def)

lemma built_fits:
  assumes "1 \<le> d" "d - 2 \<le> limit"
  shows "\<forall>l \<in> set (map (layer_of d) [0..<k]). nesting l \<le> Suc limit"
proof
  fix l assume "l \<in> set (map (layer_of d) [0..<k])"
  then obtain x where "l = layer_of d x" by auto
  with nesting_layer_of [OF assms(1), of x] assms(2) show "nesting l \<le> Suc limit" by simp
qed

text \<open>
  A layer of dimension \<open>d \<ge> 3\<close> met with fewer than \<open>d - 2\<close> free frames: the first pass
  of the walk already raises.
\<close>

lemma walk_too_deep:
  assumes d: "3 \<le> d" and limit: "limit < d - 2" and L: "L < k"
  shows "walk limit (map (layer_of d) [0..<k]) m L acc 0 = raise RecursionError"
proof -
  let ?S = "map (layer_of d) [0..<k]"
  from d obtain j where j: "d - 2 = Suc j" by (cases "d - 2") auto
  have idx: "\<not> int L - int 0 * m < 0" "nat (int L - int 0 * m) < length ?S" using L by simp_all
  have layer: "?S ! nat (int L - int 0 * m) = Nested (layer_rec L (Suc j) L 1)"
    using L d j by (simp add: layer_of_def)
  have "layer_rec L (Suc j) L 1 ! 0 = Nested (layer_rec L j 0 (1 * fact (L - 0)))"
    by (rule layer_rec_nth_Suc) simp
  moreover have "calculate_sum_nested_list limit (layer_rec L j 0 (1 * fact (L - 0))) = raise RecursionError"
    by (rule csnl_too_deep) (use limit j in simp)
  ultimately have "add_sub_value limit (layer_rec L (Suc j) L 1) 0 acc = raise RecursionError"
    by (simp add: add_sub_value_def del: layer_rec.simps)
  from walk_raises [OF idx layer this] show ?thesis .
qed

lemma hypersums_too_deep:
  assumes d: "3 \<le> d" and limit: "limit < d - 2" and k: "0 < k"
  shows "calculateHypersumsInPascalSimplex limit (map (layer_of d) [0..<k]) m = raise RecursionError"
proof -
  define S where "S = map (layer_of d) [0..<k]"
  have w: "walk limit S m 0 0 0 = raise RecursionError"
    unfolding S_def by (rule walk_too_deep [OF d limit k])
  have "[0..<length S] = 0 # [1..<length S]"
    using k by (simp add: S_def upt_conv_Cons)
  then have "calculateHypersumsInPascalSimplex limit S m = raise RecursionError"
    unfolding calculateHypersumsInPascalSimplex_def
    by (simp only: for_loop.simps w andthen_raise)
  then show ?thesis by (simp only: S_def)
qed

text \<open>
  Claim C4, as the spec states it: for every \<open>d \<ge> 1\<close> the call returns a sequence. It does
  not when the layers are nested deeper than Python's recursion limit allows:
  \<open>createPascalSimplex(1, 1100)\<close> returns one layer, 1099 lists deep, and with all 1000
  frames of the default limit free \<open>calculateHypersumsInPascalSimplex\<close> raises
  \<open>RecursionError\<close> on it at slope 1.
\<close>

theorem C4_counterexample:
  "createPascalSimplex 1 1100 = ret [layer_of 1100 0] \<and>
   calculateHypersumsInPascalSimplex 1000 [layer_of 1100 0] 1 = raise RecursionError"
proof -
  have one: "map (layer_of 1100) [0..<1] = [layer_of 1100 0]" by simp
  have "createPascalSimplex 1 1100 = ret (map (layer_of (nat 1100)) [0..<nat 1])"
    by (rule createPascalSimplex_eq) simp
  also have "nat 1100 = 1100" by simp
  also have "nat 1 = 1" by simp
  finally have built: "createPascalSimplex 1 1100 = ret [layer_of 1100 0]"
    by (simp only: one)
  have "calculateHypersumsInPascalSimplex 1000 (map (layer_of 1100) [0..<1]) 1
      = raise RecursionError"
    by (rule hypersums_too_deep) simp_all
  then have "calculateHypersumsInPascalSimplex 1000 [layer_of 1100 0] 1 = raise RecursionError"
    by (simp only: one)
  with built show ?thesis by (rule conjI)
qed

text \<open>
  Claim C4, amended. For \<open>layers \<ge> 0\<close>, \<open>d \<ge> 1\<close> and \<open>m \<ge> 1\<close> the call on the built simplex
  ends: it returns a sequence with one entry per layer, or it raises \<open>RecursionError\<close>;
  no walk runs forever. It returns the sequence whenever at least \<open>d - 2\<close> frames are free
  where \<open>calculate_sum_nested_list\<close> is called, which is the nesting of the sublists that
  are summed.
\<close>

theorem C4_hypersums_return:
  assumes "0 \<le> layers" "1 \<le> d" "1 \<le> m"
  shows "\<exists>s. createPascalSimplex layers d = ret s \<and> length s = nat layers \<and>
           (calculateHypersumsInPascalSimplex limit s m = raise RecursionError \<or>
            (\<exists>res. calculateHypersumsInPascalSimplex limit s m = ret res \<and>
                   length res = length s)) \<and>
           (nat d - 2 \<le> limit \<longrightarrow>
            (\<exists>res. calculateHypersumsInPascalSimplex limit s m = ret res \<and>
                   length res = length s))"
proof (intro exI [of _ "map (layer_of (nat d)) [0..<nat layers]"] conjI impI)
  let ?s = "map (layer_of (nat d)) [0..<nat layers]"
  show "createPascalSimplex layers d = ret ?s"
    by (rule createPascalSimplex_eq [OF assms(2)])
  show "length ?s = nat layers" by simp
  show "calculateHypersumsInPascalSimplex limit ?s m = raise RecursionError \<or>
        (\<exists>res. calculateHypersumsInPascalSimplex limit ?s m = ret res \<and> length res = length ?s)"
    by (rule hypersums_ends [OF assms(3)])
  have "1 \<le> nat d" using assms(2) by simp
  then show "\<exists>res. calculateHypersumsInPascalSimplex limit ?s m = ret res \<and> length res = length ?s"
    if "nat d - 2 \<le> limit"
    by (intro hypersums_returns assms(3) built_fits that)
qed

theorem C4_hypersums_return_witness:
  "\<exists>s. createPascalSimplex 4 3 = ret s \<and> length s = nat 4 \<and>
       (calculateHypersumsInPascalSimplex 1 s 2 = raise RecursionError \<or>
        (\<exists>res. calculateHypersumsInPascalSimplex 1 s 2 = ret res \<and> length res = length s)) \<and>
       (\<exists>res. calculateHypersumsInPascalSimplex 1 s 2 = ret res \<and> length res = length s)"
  using C4_hypersums_return [of 4 3 2 1] by simp

text \<open>
  Claim C9. For a simplex built by \<open>createPascalSimplex\<close> and a slope \<open>m \<ge> 1\<close>, the
  \<open>except IndexError\<close> branch is unreachable: every candidate index \<open>idx = layer - i m\<close> is
  at most \<open>layer\<close>, hence below the length of the simplex, so \<open>simplex[idx]\<close> is in bounds
  whenever \<open>idx\<close> is not negative. The walk of every layer ends, and when it returns it has
  left the loop through \<open>idx < 0\<close> or through the bare-scalar case, never through the caught
  \<open>IndexError\<close>. The one other way out is a \<open>RecursionError\<close> of
  \<open>calculate_sum_nested_list\<close>, which is not caught; it does not occur when at least
  \<open>d - 2\<close> frames are free.
\<close>

theorem C9_no_index_error:
  assumes "1 \<le> d" "1 \<le> m" "int layer < layers"
  shows "\<exists>s. createPascalSimplex layers d = ret s \<and> layer < length s \<and>
           (\<forall>i. int layer - int i * m \<le> int layer \<and> int layer - int i * m < int (length s)) \<and>
           (walk limit s m layer 0 0 = raise RecursionError \<or>
            (\<exists>plain_sum e. walk limit s m layer 0 0 = ret (plain_sum, e) \<and>
               (e = NegativeIndex \<or> e = BareScalar))) \<and>
           (nat d - 2 \<le> limit \<longrightarrow>
            (\<exists>plain_sum e. walk limit s m layer 0 0 = ret (plain_sum, e) \<and>
               (e = NegativeIndex \<or> e = BareScalar)))"
proof (intro exI [of _ "map (layer_of (nat d)) [0..<nat layers]"] conjI impI allI)
  let ?s = "map (layer_of (nat d)) [0..<nat layers]"
  show "createPascalSimplex layers d = ret ?s"
    by (rule createPascalSimplex_eq [OF assms(1)])
  show len: "layer < length ?s" using assms(3) by simp
  show le: "int layer - int i * m \<le> int layer" for i
  proof -
    have "0 \<le> int i * m" using assms(2) by simp
    then show ?thesis by simp
  qed
  show "int layer - int i * m < int (length ?s)" for i
    using le [of i] len by linarith
  have ends: "(walk limit ?s m layer 0 0 = raise RecursionError \<and>
                   \<not> (\<forall>l \<in> set ?s. nesting l \<le> Suc limit)) \<or>
              (\<exists>plain_sum e. walk limit ?s m layer 0 0 = ret (plain_sum, e) \<and>
                 (e = NegativeIndex \<or> e = BareScalar))"
  proof -
    from walk_ends [OF assms(2), of limit ?s layer 0 0] show ?thesis
    proof
      assume "walk limit ?s m layer 0 0 = raise RecursionError \<and>
              \<not> (\<forall>l \<in> set ?s. nesting l \<le> Suc limit)"
      then show ?thesis ..
    next
      assume "\<exists>s e. walk limit ?s m layer 0 0 = ret (s, e) \<and>
                (layer < length ?s \<longrightarrow> e \<noteq> IndexErrorCaught)"
      then obtain s e where se: "walk limit ?s m layer 0 0 = ret (s, e)" "e \<noteq> IndexErrorCaught"
        using len by blast
      from se(2) have "e = NegativeIndex \<or> e = BareScalar" by (cases e) simp_all
      with se(1) show ?thesis by blast
    qed
  qed
  then show "walk limit ?s m layer 0 0 = raise RecursionError \<or>
            (\<exists>plain_sum e. walk limit ?s m layer 0 0 = ret (plain_sum, e) \<and>
               (e = NegativeIndex \<or> e = BareScalar))"
    by blast
  have d: "1 \<le> nat d" using assms(1) by simp
  show "\<exists>plain_sum e. walk limit ?s m layer 0 0 = ret (plain_sum, e) \<and>
                 (e = NegativeIndex \<or> e = BareScalar)" if "nat d - 2 \<le> limit"
    using ends built_fits [OF d that, of "nat layers"] by blast
qed

theorem C9_no_index_error_witness:
  "\<exists>s. createPascalSimplex 4 3 = ret s \<and> 3 < length s \<and>
       (\<forall>i. int 3 - int i * 2 \<le> int 3 \<and> int 3 - int i * 2 < int (length s)) \<and>
       (walk 1 s 2 3 0 0 = raise RecursionError \<or>
        (\<exists>plain_sum e. walk 1 s 2 3 0 0 = ret (plain_sum, e) \<and>
           (e = NegativeIndex \<or> e = BareScalar))) \<and>
       (\<exists>plain_sum e. walk 1 s 2 3 0 0 = ret (plain_sum, e) \<and>
          (e = NegativeIndex \<or> e = BareScalar))"
  using C9_no_index_error [of 3 2 3 4 1] by simp

section \<open>The recurrence of the hyperplane sums\<close>

lemma py_range_nat: "0 \<le> a \<Longrightarrow> py_range a b = map int [nat a..<nat b]"
  unfolding py_range_def
  by (rule nth_equalityI) (auto simp: nat_diff_distrib)

lemma hyper_term_zero: "1 \<le> m \<Longrightarrow> L < i \<Longrightarrow> (L - i * m) choose i = 0"
proof -
  assume "1 \<le> m" "L < i"
  then have "i \<le> i * m" by (cases m) auto
  with \<open>L < i\<close> have "L - i * m = 0" by linarith
  with \<open>L < i\<close> show ?thesis by simp
qed

lemma hyper_extend:
  assumes m: "1 \<le> m" and N: "L \<le> N"
  shows "(\<Sum>i = 0..N. int ((L - i * m) choose i) * q ^ i) = hyper q m L"
  unfolding hyper_def
  by (rule sum.mono_neutral_right) (use N in \<open>auto simp: hyper_term_zero [OF m]\<close>)

text \<open>
  The closed form satisfies the initial condition and the recurrence of
  \<open>calculateSequence\<close> (Pascal's rule, term by term).
\<close>

lemma hyper_initial:
  assumes m: "1 \<le> m" and L: "L \<le> m"
  shows "hyper q m L = 1"
proof -
  have "((L - i * m) choose i) = 0" if "i \<in> {Suc 0..L}" for i
  proof -
    from that have "1 \<le> i" by simp
    then have "m \<le> i * m" by (cases i) auto
    with L have "L - i * m = 0" by linarith
    with that show ?thesis by simp
  qed
  then have "(\<Sum>i = Suc 0..L. int ((L - i * m) choose i) * q ^ i) = 0"
    by (intro sum.neutral) simp
  then show ?thesis
    by (simp add: hyper_def sum.atLeast_Suc_atMost)
qed

lemma pascal_step:
  assumes "m < L"
  shows "((L - Suc i * m) choose Suc i)
       = ((L - 1 - Suc i * m) choose Suc i) + ((L - 1 - Suc i * m) choose i)"
proof (cases "L - Suc i * m")
  case 0
  then have z: "L - 1 - Suc i * m = 0" by simp
  from 0 assms have "i \<noteq> 0" by (cases i) auto
  with 0 z show ?thesis by simp
next
  case (Suc n)
  then have "L - 1 - Suc i * m = n" by simp
  with Suc show ?thesis by simp
qed

lemma hyper_rec:
  assumes m: "1 \<le> m" and L: "m < L"
  shows "hyper q m L = hyper q m (L - 1) + q * hyper q m (L - m - 1)"
proof -
  from L obtain L' where L': "L = Suc L'" by (cases L) auto
  let ?a = "\<lambda>i. int ((L - 1 - i * m) choose i) * q ^ i"
  let ?b = "\<lambda>j. int ((L - 1 - Suc j * m) choose j) * q ^ j"
  have shift: "L - 1 - Suc j * m = L - m - 1 - j * m" for j by simp
  have "hyper q m L = (\<Sum>i = 0..Suc L'. int ((L - i * m) choose i) * q ^ i)"
    by (simp add: hyper_def L')
  also have "\<dots> = 1 + (\<Sum>i = Suc 0..Suc L'. int ((L - i * m) choose i) * q ^ i)"
    by (simp add: sum.atLeast_Suc_atMost)
  also have "(\<Sum>i = Suc 0..Suc L'. int ((L - i * m) choose i) * q ^ i)
           = (\<Sum>j = 0..L'. int ((L - Suc j * m) choose Suc j) * q ^ Suc j)"
    by (rule sum.shift_bounds_cl_Suc_ivl)
  also have "\<dots> = (\<Sum>j = 0..L'. ?a (Suc j) + q * ?b j)"
    by (rule sum.cong [OF refl], subst pascal_step [OF L]) (simp add: algebra_simps)
  also have "\<dots> = (\<Sum>j = 0..L'. ?a (Suc j)) + q * (\<Sum>j = 0..L'. ?b j)"
    by (simp add: sum.distrib sum_distrib_left)
  also have "(\<Sum>j = 0..L'. ?a (Suc j)) = (\<Sum>i = Suc 0..Suc L'. ?a i)"
    by (rule sum.shift_bounds_cl_Suc_ivl [symmetric])
  also have "1 + ((\<Sum>i = Suc 0..Suc L'. ?a i) + q * (\<Sum>j = 0..L'. ?b j))
           = (\<Sum>i = 0..Suc L'. ?a i) + q * (\<Sum>j = 0..L'. ?b j)"
    by (simp add: sum.atLeast_Suc_atMost)
  also have "(\<Sum>i = 0..Suc L'. ?a i) = hyper q m (L - 1)"
    by (rule hyper_extend [OF m]) (simp add: L')
  also have "(\<Sum>j = 0..L'. ?b j) = (\<Sum>j = 0..L'. int ((L - m - 1 - j * m) choose j) * q ^ j)"
    by (simp only: shift)
  also have "\<dots> = hyper q m (L - m - 1)"
    by (rule hyper_extend [OF m]) (simp add: L')
  finally show ?thesis .
qed

text \<open>
  The two loops of \<open>calculateSequence\<close>: no index is out of range, and the list built is
  the closed form.
\<close>

lemma ones_loop:
  "for_loop xs (\<lambda>i res. ret (res @ [1::int])) [] = ret (replicate (length xs) 1)"
proof -
  have "for_loop xs (\<lambda>i res. ret (res @ [1::int])) [] = ret (foldl (\<lambda>res i. res @ [1]) [] xs)"
    by (rule for_loop_pure) simp
  then show ?thesis by (simp add: foldl_snoc_map map_replicate_const)
qed

lemma recurrence_loop:
  fixes X :: "nat \<Rightarrow> int"
  assumes rec: "\<And>n. M < n \<Longrightarrow> X n = X (n - 1) + (d - 1) * X (n - M - 1)"
    and n: "Suc M \<le> n"
  shows "for_loop (map int [Suc M..<n]) (\<lambda>i res.
          andthen (py_get res (i - 1)) (\<lambda>a.
          andthen (py_get res (i - (int M + 1))) (\<lambda>b.
          ret (res @ [a + (d - 1) * b])))) (map X [0..<Suc M])
       = ret (map X [0..<n])"
  using n
proof (induction n rule: dec_induct)
  case base
  show ?case by simp
next
  case (step n)
  let ?res = "map X [0..<n]"
  have "int n - 1 = int (n - 1)" "n - 1 < length ?res"
    using step.hyps(1) by simp_all
  then have g1: "py_get ?res (int n - 1) = ret (X (n - 1))"
    by (simp only: py_get_nat nth_map_upt) simp
  have "int n - (int M + 1) = int (n - M - 1)" "n - M - 1 < length ?res"
    using step.hyps(1) by simp_all
  then have g2: "py_get ?res (int n - (int M + 1)) = ret (X (n - M - 1))"
    by (simp only: py_get_nat nth_map_upt) simp
  have "M < n" using step.hyps(1) by simp
  from rec [OF this] have "map X [0..<Suc n] = ?res @ [X (n - 1) + (d - 1) * X (n - M - 1)]"
    by simp
  moreover have "[Suc M..<Suc n] = [Suc M..<n] @ [n]"
    using step.hyps(1) by simp
  ultimately show ?case
    by (simp only: map_append list.map for_loop_snoc step.IH andthen_ret g1 g2)
qed

lemma calculateSequence_nat:
  assumes M: "1 \<le> M"
  shows "calculateSequence d (int M) k = ret (map (hyper (d - 1) M) [0..<nat k])"
proof -
  let ?X = "hyper (d - 1) M"
  let ?body = "\<lambda>i res.
          andthen (py_get res (i - 1)) (\<lambda>a.
          andthen (py_get res (i - (int M + 1))) (\<lambda>b.
          ret (res @ [a + (d - 1) * b])))"
  have first: "for_loop (py_range 0 (min k (int M + 1))) (\<lambda>i res. ret (res @ [1::int])) []
             = ret (replicate (nat (min k (int M + 1))) 1)"
    by (simp add: ones_loop py_range_def)
  have ones: "replicate n 1 = map ?X [0..<n]" if "n \<le> Suc M" for n
    by (rule nth_equalityI) (use that in \<open>simp_all add: hyper_initial [OF M]\<close>)
  have second: "for_loop (py_range (int M + 1) k) ?body (replicate (nat (min k (int M + 1))) 1)
              = ret (map ?X [0..<nat k])"
  proof (cases "k \<le> int M + 1")
    case True
    then have "py_range (int M + 1) k = []" by (rule py_range_empty)
    moreover from True have "nat (min k (int M + 1)) = nat k" "nat k \<le> Suc M"
      by simp_all
    ultimately show ?thesis
      using ones [of "nat k"] by simp
  next
    case False
    then have *: "nat (min k (int M + 1)) = Suc M" "Suc M \<le> nat k" by simp_all
    have "py_range (int M + 1) k = map int [Suc M..<nat k]"
      by (simp add: py_range_nat nat_add_distrib)
    moreover have "for_loop (map int [Suc M..<nat k]) ?body (map ?X [0..<Suc M])
                 = ret (map ?X [0..<nat k])"
      by (rule recurrence_loop [OF hyper_rec [OF M]]) (use * in simp_all)
    ultimately show ?thesis
      using ones [of "Suc M"] by (simp only: * )
  qed
  show ?thesis
    unfolding calculateSequence_def by (simp only: first andthen_ret second)
qed

lemma calculateSequence_eq:
  assumes m: "1 \<le> m"
  shows "calculateSequence d m k = ret (map (hyper (d - 1) (nat m)) [0..<nat k])"
  using calculateSequence_nat [of "nat m" d k] m by simp

section \<open>The formula reproduces the hyperplane sums\<close>

text \<open>
  What one pass of the walk adds on a built simplex: entry \<open>i\<close> of layer \<open>n\<close> is the sublist
  of the multi-indices with first part \<open>n - i\<close>; its scalars sum to \<open>(n choose i) (d - 1)\<^sup>i\<close>.
\<close>

lemma sub_value:
  assumes d: "2 \<le> d"
  shows "(if i < length (layer_rec n (d - 2) n 1) then layer_sum (layer_rec n (d - 2) n 1 ! i) else 0)
       = int (n choose i) * (int d - 1) ^ i"
proof (cases "i \<le> n")
  case False
  then show ?thesis by simp
next
  case True
  have sym: "n choose (n - i) = n choose i"
    using True by (simp add: binomial_symmetric [symmetric])
  show ?thesis
  proof (cases "d - 2")
    case 0
    with d have d2: "int d - 1 = 1" by simp
    have "fact n div (1 * fact (n - i) * fact (n - (n - i))) = 1 * int (n choose (n - i))"
      by (rule coeff_binomial) simp_all
    with True have "fact n div (1 * fact (n - i) * fact i) = int (n choose i)"
      by (simp add: sym)
    with True show ?thesis
      by (simp add: 0 d2 layer_rec_nth_0 del: layer_rec.simps)
  next
    case (Suc j)
    with d have dj: "int j + 2 = int d - 1" by simp
    have "fact (n - i) * fact i * int (n choose i) = (fact n :: int)"
      using fact_binomial_int [OF True] by (simp add: mult_ac)
    then have "flat_sum (layer_rec n j i (fact (n - i))) = int (n choose i) * (int j + 2) ^ i"
      by (rule layer_rec_sum) simp
    with True show ?thesis
      by (simp add: Suc dj layer_rec_nth_Suc del: layer_rec.simps)
  qed
qed

lemma add_built:
  assumes d: "2 \<le> d" and limit: "d - 2 \<le> limit"
  shows "add_sub_value limit (layer_rec n (d - 2) n 1) i acc
       = ret (acc + int (n choose i) * (int d - 1) ^ i)"
proof -
  have "nesting (Nested (layer_rec n (d - 2) n 1)) \<le> Suc (d - 2)" by (rule nesting_layer)
  also have "\<dots> \<le> Suc limit" using limit by simp
  finally show ?thesis
    by (simp only: add_fits sub_value [OF d])
qed

lemma walk_built:
  assumes d: "2 \<le> d" and limit: "d - 2 \<le> limit" and M: "1 \<le> M" and L: "L < k"
  shows "i \<le> Suc L \<Longrightarrow>
         walk limit (map (layer_of d) [0..<k]) (int M) L acc i
         = ret (acc + (\<Sum>j = i..L. int ((L - j * M) choose j) * (int d - 1) ^ j), NegativeIndex)"
proof (induction "Suc L - i" arbitrary: i acc)
  case 0
  then have i: "i = Suc L" by simp
  have "L < Suc L * M" using M by (cases M) auto
  then have "int L - int i * int M < 0" unfolding i by (metis diff_less_0_iff_less of_nat_less_iff of_nat_mult)
  then show ?case
    by (simp add: walk_negative i)
next
  case (Suc n)
  then have i: "i \<le> L" by simp
  let ?S = "map (layer_of d) [0..<k]"
  let ?t = "\<lambda>j. int ((L - j * M) choose j) * (int d - 1) ^ j"
  show ?case
  proof (cases "i * M \<le> L")
    case False
    then have neg: "int L - int i * int M < 0"
      by (metis diff_less_0_iff_less not_le of_nat_less_iff of_nat_mult)
    have "?t j = 0" if "j \<in> {i..L}" for j
    proof -
      from that have "i * M \<le> j * M" by (intro mult_le_mono1) simp
      with False have "L - j * M = 0" by linarith
      moreover from False have "i \<noteq> 0" by (cases i) auto
      with that have "j \<noteq> 0" by auto
      ultimately show ?thesis by simp
    qed
    then have "(\<Sum>j = i..L. ?t j) = 0" by (intro sum.neutral) simp
    with neg show ?thesis
      by (simp add: walk_negative)
  next
    case True
    then have idx: "int L - int i * int M = int (L - i * M)"
      by (simp add: of_nat_diff)
    have lt: "L - i * M < k" using L by simp
    have layer: "?S ! (L - i * M) = Nested (layer_rec (L - i * M) (d - 2) (L - i * M) 1)"
      using lt d by (simp add: layer_of_def)
    have c: "\<not> int L - int i * int M < 0" "nat (int L - int i * int M) < length ?S"
      "?S ! nat (int L - int i * int M) = Nested (layer_rec (L - i * M) (d - 2) (L - i * M) 1)"
      using lt layer by (simp_all only: idx nat_int length_map length_upt diff_zero)
    have "walk limit ?S (int M) L acc i = walk limit ?S (int M) L (acc + ?t i) (i + 1)"
      by (rule walk_next [OF c add_built [OF d limit]])
    also have "\<dots> = ret (acc + ?t i + (\<Sum>j = i + 1..L. ?t j), NegativeIndex)"
      using Suc.hyps(2) i by (intro Suc.hyps(1)) simp_all
    also have "acc + ?t i + (\<Sum>j = i + 1..L. ?t j) = acc + (\<Sum>j = i..L. ?t j)"
      using i by (simp add: sum.atLeast_Suc_atMost)
    finally show ?thesis .
  qed
qed

lemma hypersums_built:
  assumes d: "2 \<le> d" and limit: "d - 2 \<le> limit" and M: "1 \<le> M"
  shows "calculateHypersumsInPascalSimplex limit (map (layer_of d) [0..<k]) (int M)
       = ret (map (hyper (int d - 1) M) [0..<k])"
proof -
  let ?S = "map (layer_of d) [0..<k]"
  have "\<exists>e. walk limit ?S (int M) L 0 0 = ret (hyper (int d - 1) M L, e)" if "L < length ?S" for L
    using walk_built [OF d limit M, of L k 0 0] that by (simp add: hyper_def)
  from hypersums_eq [of ?S limit "int M" "hyper (int d - 1) M", OF this]
  show ?thesis by simp
qed

lemma walk_bare_scalar:
  "L < length S \<Longrightarrow> S ! L = Scalar v \<Longrightarrow> walk limit S m L 0 0 = ret (1, BareScalar)"
  by (rule walk_bare) simp_all

lemma hypersums_scalars:
  assumes "\<And>L. L < length S \<Longrightarrow> \<exists>v. S ! L = Scalar v"
  shows "calculateHypersumsInPascalSimplex limit S m = ret (replicate (length S) 1)"
proof -
  have "\<exists>e. walk limit S m L 0 0 = ret (1, e)" if "L < length S" for L
    using assms [OF that] walk_bare_scalar [OF that] by blast
  from hypersums_eq [of S limit m "\<lambda>_. 1", OF this] show ?thesis
    by (simp add: map_replicate_const)
qed

lemma hyper_zero: "hyper 0 m L = 1"
proof -
  have "(\<Sum>i = Suc 0..L. int ((L - i * m) choose i) * 0 ^ i) = 0"
    by (intro sum.neutral) simp
  then show ?thesis by (simp add: hyper_def sum.atLeast_Suc_atMost)
qed

lemma map_hyper_zero: "map (hyper 0 m) [0..<n] = replicate n 1"
  by (rule nth_equalityI) (simp_all add: hyper_zero)

lemma formula_matches_hypersums:
  assumes d: "1 \<le> d" and m: "1 \<le> m" and limit: "nat d - 2 \<le> limit"
  shows "\<exists>s h. createPascalSimplex k d = ret s \<and>
               calculateHypersumsInPascalSimplex limit s m = ret h \<and>
               calculateSequence d m k = ret h"
proof (cases "d = 1")
  case True
  have "calculateHypersumsInPascalSimplex limit (map (layer_of (nat d)) [0..<nat k]) m
      = ret (replicate (length (map (layer_of (nat d)) [0..<nat k])) 1)"
    by (rule hypersums_scalars) (simp add: True layer_of_def)
  moreover have "map (hyper (d - 1) (nat m)) [0..<nat k] = replicate (nat k) 1"
    by (simp add: True map_hyper_zero)
  ultimately show ?thesis
    using d by (simp add: createPascalSimplex_eq calculateSequence_eq [OF m])
next
  case False
  with d have d2: "2 \<le> nat d" "int (nat d) = d" by simp_all
  from m have m1: "1 \<le> nat m" "int (nat m) = m" by simp_all
  have "calculateHypersumsInPascalSimplex limit (map (layer_of (nat d)) [0..<nat k]) m
      = ret (map (hyper (d - 1) (nat m)) [0..<nat k])"
    using hypersums_built [OF d2(1) limit m1(1), of "nat k"] by (simp only: d2(2) m1(2))
  then show ?thesis
    using d by (simp add: createPascalSimplex_eq calculateSequence_eq [OF m])
qed

lemma py_range_bounds: "x \<in> set (py_range a b) \<Longrightarrow> a \<le> x \<and> x < b"
  by (simp add: py_range_def)

lemma for_loop_keep:
  "(\<And>x s. x \<in> set xs \<Longrightarrow> body x s = ret s) \<Longrightarrow> for_loop xs body s = ret s"
  by (induction xs arbitrary: s) simp_all

text \<open>
  The validator returns \<open>True\<close> for all bounds, given the frames for its deepest simplex,
  of dimension \<open>maxD - 1\<close>.
\<close>

lemma validateFormula_True:
  assumes limit: "maxD - 3 \<le> int limit"
  shows "validateFormula limit maxD maxM maxK = ret True"
proof -
  let ?check = "\<lambda>d m k all_okay.
           andthen (createPascalSimplex k d) (\<lambda>simplex.
           andthen (calculateHypersumsInPascalSimplex limit simplex m) (\<lambda>hypersums.
           andthen (calculateSequence d m k) (\<lambda>sequence.
           ret (if hypersums \<noteq> sequence then False else all_okay))))"
  have check: "?check d m k ok = ret ok" if "1 \<le> d" "d < maxD" "1 \<le> m" for d m k ok
  proof -
    from that(2) limit have "nat d - 2 \<le> limit" by linarith
    from formula_matches_hypersums [OF that(1,3) this, of k] show ?thesis by auto
  qed
  have inner: "for_loop (py_range 1 maxK) (?check d m) ok = ret ok"
    if "1 \<le> d" "d < maxD" "1 \<le> m" for d m ok
    by (rule for_loop_keep) (rule check [OF that])
  have middle: "for_loop (py_range 1 maxM) (\<lambda>m. for_loop (py_range 1 maxK) (?check d m)) ok = ret ok"
    if "1 \<le> d" "d < maxD" for d ok
    by (rule for_loop_keep) (rule inner [OF that], simp add: py_range_def)
  have "for_loop (py_range 1 maxD)
          (\<lambda>d. for_loop (py_range 1 maxM) (\<lambda>m. for_loop (py_range 1 maxK) (?check d m))) True
        = ret True"
    by (rule for_loop_keep) (rule middle, simp_all add: py_range_def)
  then show ?thesis by (simp add: validateFormula_def)
qed

text \<open>
  Claim C1. For every dimension \<open>d\<close> in \<open>[1, 10)\<close>, slope \<open>m\<close> in \<open>[1, 10)\<close> and length \<open>k\<close>
  in \<open>[1, 18)\<close> the simplex is built, its hypersums are computed, and
  \<open>calculateSequence(d, m, k)\<close> returns the same list; and \<open>validateFormula(10, 10, 18)\<close>
  returns \<open>True\<close>. The sublists summed on the way are nested at most 7 deep (dimension 9),
  so this holds for every interpreter state that leaves 7 frames free at the call of
  \<open>calculate_sum_nested_list\<close>; Python's default limit leaves hundreds.
\<close>

theorem C1_formula_validated:
  assumes "7 \<le> limit"
  shows "(1 \<le> d \<and> d < 10 \<and> 1 \<le> m \<and> m < 10 \<and> 1 \<le> k \<and> k < 18 \<longrightarrow>
            (\<exists>s h. createPascalSimplex k d = ret s \<and>
                   calculateHypersumsInPascalSimplex limit s m = ret h \<and>
                   calculateSequence d m k = ret h)) \<and>
         validateFormula limit 10 10 18 = ret True"
proof (intro conjI impI)
  assume "1 \<le> d \<and> d < 10 \<and> 1 \<le> m \<and> m < 10 \<and> 1 \<le> k \<and> k < 18"
  then have "1 \<le> d" "1 \<le> m" "nat d - 2 \<le> limit" using assms by linarith+
  then show "\<exists>s h. createPascalSimplex k d = ret s \<and>
                 calculateHypersumsInPascalSimplex limit s m = ret h \<and>
                 calculateSequence d m k = ret h"
    by (rule formula_matches_hypersums)
next
  show "validateFormula limit 10 10 18 = ret True"
    by (rule validateFormula_True) (use assms in simp)
qed

theorem C1_formula_validated_witness:
  "(7::nat) \<le> 7 \<and>
   (\<exists>s h. createPascalSimplex 5 3 = ret s \<and>
          calculateHypersumsInPascalSimplex 7 s 2 = ret h \<and>
          calculateSequence 3 2 5 = ret h) \<and>
   validateFormula 7 10 10 18 = ret True"
  using C1_formula_validated [of 7 3 2 5] by simp

text \<open>
  Claim C6. In dimension 1, for every slope \<open>m \<ge> 1\<close> and length \<open>k \<ge> 0\<close>,
  \<open>calculateSequence(1, m, k)\<close> returns \<open>k\<close> ones, and so does
  \<open>calculateHypersumsInPascalSimplex(createPascalSimplex(k, 1), m)\<close>, whatever the number of
  free frames: a bare scalar is not summed by a call.
\<close>

theorem C6_dimension_one:
  assumes "1 \<le> m" "0 \<le> k"
  shows "calculateSequence 1 m k = ret (replicate (nat k) 1) \<and>
         (\<exists>s. createPascalSimplex k 1 = ret s \<and>
              calculateHypersumsInPascalSimplex limit s m = ret (replicate (nat k) 1))"
proof -
  have "calculateHypersumsInPascalSimplex limit (map (layer_of (Suc 0)) [0..<nat k]) m
      = ret (replicate (length (map (layer_of (Suc 0)) [0..<nat k])) 1)"
    by (rule hypersums_scalars) (simp add: layer_of_def)
  then show ?thesis
    by (simp add: calculateSequence_eq [OF assms(1)] map_hyper_zero createPascalSimplex_eq)
qed

theorem C6_dimension_one_witness:
  "calculateSequence 1 3 5 = ret (replicate (nat 5) 1) \<and>
   (\<exists>s. createPascalSimplex 5 1 = ret s \<and>
        calculateHypersumsInPascalSimplex 0 s 3 = ret (replicate (nat 5) 1))"
  using C6_dimension_one [of 3 5 0] by simp

section \<open>Slopes below one\<close>

text \<open>
  No slope makes the function raise an error of its own: whatever \<open>m\<close> is, the only
  exception that can leave it is the \<open>RecursionError\<close> of \<open>calculate_sum_nested_list\<close>.
\<close>

lemma walk_raises_only:
  assumes "walk limit S m L a j = Some y"
  shows "\<forall>e. y = Inl e \<longrightarrow> e = RecursionError"
proof (rule walk.raw_induct
    [where P = "\<lambda>limit S m L a j y. \<forall>e. y = Inl e \<longrightarrow> e = RecursionError", OF _ assms],
    goal_cases)
  case (1 walk' limit S m L a j y)
  let ?idx = "int L - int j * m"
  show ?case
  proof (cases "\<not> ?idx < 0 \<and> nat ?idx < length S \<and> (\<exists>vs. S ! nat ?idx = Nested vs)")
    case False
    with 1(2) show ?thesis
      by (auto simp: Let_def split: if_splits node.splits)
  next
    case True
    then obtain vs where vs: "\<not> ?idx < 0" "nat ?idx < length S" "S ! nat ?idx = Nested vs" by blast
    from add_cases [of limit vs j a] show ?thesis
    proof
      assume "add_sub_value limit vs j a = raise RecursionError"
      with 1(2) vs show ?thesis by (auto simp: Let_def raise_def)
    next
      assume "\<exists>b. add_sub_value limit vs j a = ret b"
      then obtain b where "add_sub_value limit vs j a = ret b" ..
      with 1(2) vs have "walk' limit S m L b (j + 1) = Some y"
        by (simp add: Let_def ret_def)
      then show ?thesis by (rule 1(1))
    qed
  qed
qed

lemma for_loop_raises_only:
  assumes "\<And>x s e'. body x s = raise e' \<Longrightarrow> e' = e"
  shows "for_loop xs body s = raise e' \<Longrightarrow> e' = e"
proof (induction xs arbitrary: s)
  case Nil
  then show ?case by simp
next
  case (Cons x xs)
  show ?case
  proof (cases "body x s")
    case None
    with Cons.prems show ?thesis by (simp add: raise_def)
  next
    case (Some r)
    show ?thesis
    proof (cases r)
      case (Inl e'')
      with Some Cons.prems have "body x s = raise e'" by (simp add: andthen_def raise_def)
      then show ?thesis by (rule assms)
    next
      case (Inr v)
      with Some Cons.prems have "for_loop xs body v = raise e'" by (simp add: andthen_def)
      then show ?thesis by (rule Cons.IH)
    qed
  qed
qed

lemma hypersums_raises_only:
  "calculateHypersumsInPascalSimplex limit simplex m = raise e \<Longrightarrow> e = RecursionError"
  unfolding calculateHypersumsInPascalSimplex_def
proof (erule for_loop_raises_only [rotated])
  fix x s e'
  assume r: "andthen (walk limit simplex m x 0 0) (\<lambda>(plain_sum, how). ret (s @ [plain_sum])) = raise e'"
  then have "walk limit simplex m x 0 0 = Some (Inl e')"
    by (auto simp: andthen_def raise_def ret_def split: option.splits sum.splits prod.splits)
  from walk_raises_only [OF this] show "e' = RecursionError" by simp
qed

text \<open>
  With \<open>m < 0\<close> the candidate index grows in every pass, so the walk ends as well: at a
  bare scalar, at the caught \<open>IndexError\<close>, or with a \<open>RecursionError\<close>.
\<close>

lemma walk_ends_neg:
  assumes m: "m < 0"
  shows "(walk limit simplex m layer acc i = raise RecursionError \<and>
            \<not> (\<forall>l \<in> set simplex. nesting l \<le> Suc limit)) \<or>
         (\<exists>s e. walk limit simplex m layer acc i = ret (s, e))"
proof (induction i arbitrary: acc
    rule: measure_induct_rule [where f = "\<lambda>i. nat (int (length simplex) - (int layer - int i * m))"])
  case (less i)
  let ?idx = "int layer - int i * m"
  have "int i * m \<le> 0" using m by (simp add: mult_nonneg_nonpos)
  then have nonneg: "\<not> ?idx < 0" by simp
  show ?case
  proof (cases "nat ?idx < length simplex")
    case False
    with nonneg show ?thesis by (simp add: walk_outside)
  next
    case True
    show ?thesis
    proof (cases "simplex ! nat ?idx")
      case (Scalar v)
      with nonneg True show ?thesis by (simp add: walk_bare)
    next
      case (Nested vs)
      from add_cases [of limit vs i acc] show ?thesis
      proof
        assume r: "add_sub_value limit vs i acc = raise RecursionError"
        have "\<not> nesting (Nested vs) \<le> Suc limit"
          using add_fits [of vs limit i acc] r by auto
        moreover have "Nested vs \<in> set simplex"
          using True Nested by (metis nth_mem)
        ultimately have "\<not> (\<forall>l \<in> set simplex. nesting l \<le> Suc limit)" by blast
        with walk_raises [OF nonneg True Nested r] show ?thesis by blast
      next
        assume "\<exists>a. add_sub_value limit vs i acc = ret a"
        then obtain a where a: "add_sub_value limit vs i acc = ret a" ..
        have "int (i + 1) * m = int i * m + m" by (simp add: algebra_simps)
        with True m have "nat (int (length simplex) - (int layer - int (i + 1) * m))
                        < nat (int (length simplex) - (int layer - int i * m))"
          by linarith
        from less.IH [OF this, of a] show ?thesis
          by (simp only: walk_next [OF nonneg True Nested a])
      qed
    qed
  qed
qed

lemma hypersums_returns_neg:
  assumes m: "m < 0" and fits: "\<forall>l \<in> set simplex. nesting l \<le> Suc limit"
  shows "\<exists>res. calculateHypersumsInPascalSimplex limit simplex m = ret res \<and>
               length res = length simplex"
proof -
  define f where "f L = (case walk limit simplex m L 0 0 of Some (Inr r) \<Rightarrow> fst r | _ \<Rightarrow> 0)" for L
  have "\<exists>e. walk limit simplex m L 0 0 = ret (f L, e)" for L
  proof -
    from walk_ends_neg [OF m, of limit simplex L 0 0] fits
    obtain s e where "walk limit simplex m L 0 0 = ret (s, e)" by blast
    then show ?thesis by (auto simp: f_def ret_def)
  qed
  then have "calculateHypersumsInPascalSimplex limit simplex m = ret (map f [0..<length simplex])"
    by (intro hypersums_eq) auto
  then show ?thesis by simp
qed

text \<open>
  With slope 0 the walk of a nested layer reads the same layer again and again and only
  moves on in that layer's list: it returns no value. The call then hangs, unless a sum
  raises \<open>RecursionError\<close> first.
\<close>

lemma walk_zero_no_result:
  assumes "walk limit S m L a j = Some y"
  shows "\<not> (m = 0 \<and> L < length S \<and> (\<exists>l. S ! L = Nested l) \<and> (\<exists>r. y = Inr r))"
proof (rule walk.raw_induct
    [where P = "\<lambda>limit S m L a j y.
                  \<not> (m = 0 \<and> L < length S \<and> (\<exists>l. S ! L = Nested l) \<and> (\<exists>r. y = Inr r))",
     OF _ assms],
    goal_cases)
  case (1 walk' limit S m L a j y)
  show ?case
  proof
    assume h: "m = 0 \<and> L < length S \<and> (\<exists>l. S ! L = Nested l) \<and> (\<exists>r. y = Inr r)"
    then obtain l r where l: "S ! L = Nested l" and r: "y = Inr r" by blast
    from 1(2) h l r obtain a' where "walk' limit S m L a' (j + 1) = Some y"
      by (auto simp: Let_def split: option.splits sum.splits)
    then have "\<not> (m = 0 \<and> L < length S \<and> (\<exists>l. S ! L = Nested l) \<and> (\<exists>r. y = Inr r))"
      by (rule 1(1))
    with h show False by blast
  qed
qed

lemma for_loop_no_result:
  assumes "L \<in> set xs" "\<And>s v. body L s \<noteq> ret v"
  shows "for_loop xs body s \<noteq> ret v"
  using assms(1)
proof (induction xs arbitrary: s)
  case Nil
  then show ?case by simp
next
  case (Cons x xs)
  show ?case
  proof (cases "\<exists>w. body x s = ret w")
    case False
    then show ?thesis
      by (auto simp: andthen_def ret_def split: option.splits sum.splits)
  next
    case True
    then obtain w where w: "body x s = ret w" ..
    with assms(2) have "x \<noteq> L" by auto
    with Cons.prems have "L \<in> set xs" by simp
    from Cons.IH [OF this, of w] w show ?thesis by simp
  qed
qed

lemma zero_slope_no_result:
  assumes "layer < length simplex" "simplex ! layer = Nested l"
  shows "calculateHypersumsInPascalSimplex limit simplex 0 \<noteq> ret res"
  unfolding calculateHypersumsInPascalSimplex_def
proof (rule for_loop_no_result [where L = layer])
  show "layer \<in> set [0..<length simplex]" using assms(1) by simp
  fix s v
  show "andthen (walk limit simplex 0 layer 0 0) (\<lambda>(plain_sum, how). ret (s @ [plain_sum])) \<noteq> ret v"
  proof
    assume "andthen (walk limit simplex 0 layer 0 0) (\<lambda>(plain_sum, how). ret (s @ [plain_sum])) = ret v"
    then obtain r where "walk limit simplex 0 layer 0 0 = Some (Inr r)"
      by (auto simp: andthen_def ret_def split: option.splits sum.splits)
    from walk_zero_no_result [OF this] assms show False by blast
  qed
qed

text \<open>
  Claim C3, as the spec states it: a call with slope \<open>m < 1\<close> fails with an
  InvalidParameter error. The code does not: \<open>createPascalSimplex(2, 1)\<close> returns the
  simplex \<open>[1, 1]\<close>, and on it the call with \<open>m = 0\<close> returns the sequence \<open>[1, 1]\<close>
  (here with the 1000 frames of Python's default limit; none is used).
\<close>

theorem C3_counterexample:
  "createPascalSimplex 2 1 = ret [Scalar 1, Scalar 1] \<and>
   calculateHypersumsInPascalSimplex 1000 [Scalar 1, Scalar 1] 0 = ret [1, 1]"
proof -
  have "calculateHypersumsInPascalSimplex 1000 [Scalar 1, Scalar 1] 0
      = ret (replicate (length [Scalar 1, Scalar 1]) 1)"
    by (rule hypersums_scalars) (simp add: nth_Cons split: nat.splits)
  then show ?thesis
    by (simp add: createPascalSimplex_def createPascalSimplex_with_def numeral_2_eq_2)
qed

text \<open>
  Claim C3, amended. \<open>calculateHypersumsInPascalSimplex\<close> does not validate the slope. For
  \<open>m < 1\<close> it raises no error of its own: the only exception that can leave the call is the
  \<open>RecursionError\<close> of \<open>calculate_sum_nested_list\<close>, as for any other slope. For \<open>m < 0\<close>,
  on a simplex whose layers are nested no deeper than the free frames allow (at most
  \<open>limit + 1\<close> deep), it returns, with one value per layer. For a simplex of bare scalars
  (dimension 1) it returns all ones, also for \<open>m = 0\<close>.
\<close>

theorem C3_slope_not_validated:
  assumes "m < 1"
  shows "(calculateHypersumsInPascalSimplex limit simplex m = raise e \<longrightarrow> e = RecursionError) \<and>
         (m < 0 \<longrightarrow> (\<forall>l \<in> set simplex. nesting l \<le> Suc limit) \<longrightarrow>
            (\<exists>res. calculateHypersumsInPascalSimplex limit simplex m = ret res \<and>
                   length res = length simplex)) \<and>
         ((\<forall>l \<in> set simplex. \<exists>v. l = Scalar v) \<longrightarrow>
            calculateHypersumsInPascalSimplex limit simplex m = ret (replicate (length simplex) 1))"
proof (intro conjI impI)
  show "e = RecursionError" if "calculateHypersumsInPascalSimplex limit simplex m = raise e"
    using that by (rule hypersums_raises_only)
  show "\<exists>res. calculateHypersumsInPascalSimplex limit simplex m = ret res \<and> length res = length simplex"
    if "m < 0" "\<forall>l \<in> set simplex. nesting l \<le> Suc limit"
    by (rule hypersums_returns_neg [OF that])
  show "calculateHypersumsInPascalSimplex limit simplex m = ret (replicate (length simplex) 1)"
    if "\<forall>l \<in> set simplex. \<exists>v. l = Scalar v"
    by (rule hypersums_scalars) (use that in auto)
qed

theorem C3_slope_not_validated_witness:
  "(-1::int) < 1 \<and> (-1::int) < 0 \<and>
   calculateHypersumsInPascalSimplex 0 [Nested [Scalar 1], Nested [Scalar 1, Scalar 1]] (-1)
     \<noteq> raise ValueError \<and>
   (\<exists>res. calculateHypersumsInPascalSimplex 0 [Nested [Scalar 1], Nested [Scalar 1, Scalar 1]] (-1)
            = ret res \<and>
          length res = length [Nested [Scalar 1], Nested [Scalar 1, Scalar 1]]) \<and>
   (0::int) < 1 \<and>
   calculateHypersumsInPascalSimplex 0 [Scalar 1, Scalar 1] 0
     = ret (replicate (length [Scalar 1, Scalar 1]) 1)"
  using C3_slope_not_validated [of "-1" 0 "[Nested [Scalar 1], Nested [Scalar 1, Scalar 1]]" ValueError]
    C3_slope_not_validated [of 0 0 "[Scalar 1, Scalar 1]" ValueError]
  by simp

section \<open>Known values\<close>

text \<open>
  The model run on inputs whose results the notebook prints or the spec lists: a layer of
  the tetrahedron, the Fibonacci and Narayana sequences, a small simplex built by the
  work-list loop itself, and the hypersums of the triangle at slope 4 (the rows of the
  triangle hold scalars, so no frame is needed). Two more runs show the recursion budget
  and a negative slope at work.
\<close>

lemma exactdiv_refuses: "exactdiv 7 2 = raise InexactDivision"
  by (simp add: exactdiv_def)

lemma known_tetrahedron_layer:
  "layer_of 3 4 =
     Nested [Nested [Scalar 1], Nested [Scalar 4, Scalar 4], Nested [Scalar 6, Scalar 12, Scalar 6],
             Nested [Scalar 4, Scalar 12, Scalar 12, Scalar 4],
             Nested [Scalar 1, Scalar 4, Scalar 6, Scalar 4, Scalar 1]]"
  by code_simp

lemma known_fibonacci:
  "calculateSequence 2 1 15 = ret [1, 1, 2, 3, 5, 8, 13, 21, 34, 55, 89, 144, 233, 377, 610]"
  by code_simp

lemma known_narayana:
  "calculateSequence 2 2 15 = ret [1, 1, 1, 2, 3, 4, 6, 9, 13, 19, 28, 41, 60, 88, 129]"
  by code_simp

lemma known_run:
  "createPascalSimplex 3 3 =
     ret [Nested [Nested [Scalar 1]],
          Nested [Nested [Scalar 1], Nested [Scalar 1, Scalar 1]],
          Nested [Nested [Scalar 1], Nested [Scalar 2, Scalar 2], Nested [Scalar 1, Scalar 2, Scalar 1]]]"
  by code_simp

lemma known_hypersums:
  "andthen (createPascalSimplex 15 2) (\<lambda>s. calculateHypersumsInPascalSimplex 0 s 4)
   = ret [1, 1, 1, 1, 1, 2, 3, 4, 5, 6, 8, 11, 15, 20, 26]"
  by code_simp

lemma known_recursion_budget:
  "calculateHypersumsInPascalSimplex 0 [Nested [Nested [Scalar 1]]] 1 = raise RecursionError \<and>
   calculateHypersumsInPascalSimplex 1 [Nested [Nested [Scalar 1]]] 1 = ret [1]"
  by code_simp

lemma known_negative_slope:
  "calculateHypersumsInPascalSimplex 0 [Nested [Scalar 1], Nested [Scalar 1, Scalar 1]] (- 1)
   = ret [2, 1]"
  by code_simp

end
